theory Spec2Isabelle
  imports Complex_Main
begin

section \<open>Audio subtitle editor: segmentation, lookup, edits and time format\<close>

text \<open>
  The editor is one React component, \<^verbatim>\<open>AudioSubtitleEditor\<close>. Its logic lives in event
  handlers that read and write component state. Each handler is embedded as a function on
  the values it reads, returning the values it writes.

  Conventions of the embedding:
  \<^item> A JavaScript number is an IEEE-754 binary64 value, embedded as the real number it
    denotes. Every arithmetic operation of the source is the exact operation followed by
    rounding to the nearest binary64 value, ties to even. \<^verbatim>\<open>NaN\<close>, the infinities, the
    sign of zero and overflow beyond the largest binary64 value are not represented, so a
    duration is a finite number.
  \<^item> Array lengths and indices are integers below \<open>2\<^sup>3\<^sup>2\<close> in the host language, so they
    are exact as numbers; the integers produced by \<^verbatim>\<open>Math.floor\<close> are \<open>int\<close>.
  \<^item> A JavaScript string is a list of code units; the embedding covers the code units
    U+0000 to U+00FF, one \<open>char\<close> each, so \<^verbatim>\<open>s.length\<close> is \<open>length s\<close>.
  \<^item> A rejected promise is the left injection of a sum, carrying the reason.
\<close>

subsection \<open>Numbers of the host language\<close>

text \<open>
  \<open>expo x\<close> is the binary exponent of a positive number: \<open>2 powi expo x \<le> x < 2 powi (expo x + 1)\<close>.
\<close>

function expo :: "real \<Rightarrow> int" where
  "expo x = (if 2 \<le> x then expo (x / 2) + 1
             else if 0 < x \<and> x < 1 then expo (x * 2) - 1
             else 0)"
  by pat_completeness auto
termination
proof (relation "measure (\<lambda>x. nat \<lfloor>\<bar>log 2 x\<bar>\<rfloor> + (if x < 1 then 1 else 0))", goal_cases)
  case 1
  show ?case by simp
next
  case (2 x)
  then have "log 2 (x / 2) = log 2 x - 1" by (simp add: log_divide)
  moreover from 2 have "1 \<le> log 2 x" by (simp add: le_log_iff)
  ultimately show ?case using 2 by simp
next
  case (3 x)
  then have x: "0 < x" "x < 1" by simp_all
  then have l: "log 2 (x * 2) = log 2 x + 1" by (simp add: log_mult)
  from x have neg: "log 2 x < 0" by simp
  show ?case
  proof (cases "x * 2 < 1")
    case True
    then have "log 2 (x * 2) < 0" using x by simp
    then show ?thesis using x True l neg by simp
  next
    case False
    then have "0 \<le> log 2 (x * 2)" using x by simp
    then have nn: "0 \<le> log 2 x + 1" by (simp only: l)
    then have "\<lfloor>log 2 x + 1\<rfloor> = 0" using neg by (subst floor_eq_iff) simp
    moreover have "\<bar>log 2 x + 1\<bar> = log 2 x + 1" using nn by simp
    ultimately show ?thesis using x False l by simp
  qed
qed

declare expo.simps [simp del]

text \<open>Rounding to the nearest integer, a tie going to the even neighbour.\<close>

definition roundTiesToEven :: "real \<Rightarrow> int" where
  "roundTiesToEven q =
     (let f = \<lfloor>q\<rfloor>; r = q - of_int f
      in if r < 1 / 2 then f else if 1 / 2 < r then f + 1 else if even f then f else f + 1)"

text \<open>
  The binary64 value nearest to a real number: 53 significant bits, the exponent not
  below \<open>-1022\<close> (below it the spacing stays \<open>2 powi (-1074)\<close>, the subnormal numbers).
\<close>

definition binary64 :: "real \<Rightarrow> real" where
  "binary64 x =
     (if x = 0 then 0
      else (let e = max (expo \<bar>x\<bar>) (- 1022); ulp = 2 powi (e - 52)
            in of_int (roundTiesToEven (x / ulp)) * ulp))"

definition isDouble :: "real \<Rightarrow> bool" where
  "isDouble x = (binary64 x = x)"

text \<open>The operators \<^verbatim>\<open>+\<close>, \<^verbatim>\<open>-\<close>, \<^verbatim>\<open>*\<close> and \<^verbatim>\<open>/\<close> on numbers.\<close>

definition add64 :: "real \<Rightarrow> real \<Rightarrow> real" where
  "add64 x y = binary64 (x + y)"

definition sub64 :: "real \<Rightarrow> real \<Rightarrow> real" where
  "sub64 x y = binary64 (x - y)"

definition mul64 :: "real \<Rightarrow> real \<Rightarrow> real" where
  "mul64 x y = binary64 (x * y)"

definition div64 :: "real \<Rightarrow> real \<Rightarrow> real" where
  "div64 x y = binary64 (x / y)"

subsection \<open>The cue record\<close>

text \<open>
  \<^verbatim>\<open>interface Subtitle { id: string; startTime: number; endTime: number; text: string }\<close>
\<close>

record Subtitle =
  id_sub :: string
  startTime :: real
  endTime :: real
  text_sub :: string

subsection \<open>String primitives of the host language\<close>

text \<open>
  White space as \<^verbatim>\<open>String.prototype.trim\<close> and \<^verbatim>\<open>parseInt\<close> see it, within
  U+0000 to U+00FF: TAB, LF, VT, FF, CR, SPACE and NO-BREAK SPACE.
\<close>

definition isWhiteSpace :: "char \<Rightarrow> bool" where
  "isWhiteSpace c =
     (c = CHR 0x09 \<or> c = CHR 0x0A \<or> c = CHR 0x0B \<or> c = CHR 0x0C \<or> c = CHR 0x0D
      \<or> c = CHR 0x20 \<or> c = CHR 0xA0)"

definition trimStart :: "string \<Rightarrow> string" where
  "trimStart s = dropWhile isWhiteSpace s"

definition trim :: "string \<Rightarrow> string" where
  "trim s = rev (dropWhile isWhiteSpace (rev (dropWhile isWhiteSpace s)))"

text \<open>
  \<^verbatim>\<open>s.split(sep)\<close> for a one-character separator: the pieces between the separators,
  empty pieces kept; the empty string splits into one empty piece.
\<close>

fun split_js :: "char \<Rightarrow> string \<Rightarrow> string list" where
  "split_js sep [] = [[]]"
| "split_js sep (c # cs) =
     (if c = sep then [] # split_js sep cs
      else (case split_js sep cs of
              [] \<Rightarrow> [[c]]
            | p # ps \<Rightarrow> (c # p) # ps))"

text \<open>\<^verbatim>\<open>xs.join(sep)\<close> for a one-character separator.\<close>

fun join_js :: "char \<Rightarrow> string list \<Rightarrow> string" where
  "join_js sep [] = []"
| "join_js sep [w] = w"
| "join_js sep (w # v # ws) = w @ sep # join_js sep (v # ws)"

text \<open>\<^verbatim>\<open>xs.slice(i, j)\<close> for \<open>0 \<le> i \<le> j\<close>, the upper end cut at the length.\<close>

definition slice_js :: "'a list \<Rightarrow> nat \<Rightarrow> nat \<Rightarrow> 'a list" where
  "slice_js xs i j = take (j - i) (drop i xs)"

definition padStart :: "nat \<Rightarrow> char \<Rightarrow> string \<Rightarrow> string" where
  "padStart n c s = replicate (n - length s) c @ s"

definition padEnd :: "nat \<Rightarrow> char \<Rightarrow> string \<Rightarrow> string" where
  "padEnd n c s = s @ replicate (n - length s) c"

text \<open>
  Decimal rendering of an integer, as \<^verbatim>\<open>toString\<close> and template literals give it for
  integers below \<open>10\<^sup>2\<^sup>1\<close> in magnitude.
\<close>

definition digitChar :: "nat \<Rightarrow> char" where
  "digitChar d = ''0123456789'' ! d"

fun digits :: "nat \<Rightarrow> string" where
  "digits n = (if n < 10 then [digitChar n] else digits (n div 10) @ [digitChar (n mod 10)])"

declare digits.simps [simp del]

definition toString :: "int \<Rightarrow> string" where
  "toString k = (if k < 0 then CHR ''-'' # digits (nat (- k)) else digits (nat k))"

subsection \<open>Segmentation: from a transcript to timed cues\<close>

text \<open>
  \<^verbatim>\<open>const words = text.split(' ').filter(word => word.trim().length > 0)\<close>
\<close>

definition words_of :: "string \<Rightarrow> string list" where
  "words_of text = filter (\<lambda>word. length (trim word) > 0) (split_js CHR '' '' text)"

definition wordsPerSegment :: nat where
  "wordsPerSegment = 4"

definition baseSegmentDuration :: real where
  "baseSegmentDuration = 2.5"

text \<open>
  The literals \<^verbatim>\<open>2.5\<close>, \<^verbatim>\<open>1.5\<close>, \<^verbatim>\<open>0.5\<close>, \<^verbatim>\<open>5\<close>, \<^verbatim>\<open>60\<close> and \<^verbatim>\<open>1000\<close> are binary64 values;
  \<^verbatim>\<open>0.8\<close> and \<^verbatim>\<open>0.1\<close> are not, and denote the binary64 values nearest to them.
\<close>

text \<open>
  The \<^verbatim>\<open>for (let i = 0; i < words.length; i += wordsPerSegment)\<close> loop, with the list
  \<^verbatim>\<open>newSubtitles\<close> built so far as accumulator. The \<^verbatim>\<open>break\<close> leaves the loop with
  what has been pushed.
\<close>

function buildSegments :: "string list \<Rightarrow> real \<Rightarrow> nat \<Rightarrow> Subtitle list \<Rightarrow> Subtitle list" where
  "buildSegments words duration i newSubtitles =
     (if i < length words then
        (let segmentWords = slice_js words i (i + wordsPerSegment);
             segmentIndex = i div wordsPerSegment;
             startTime = mul64 (real segmentIndex) baseSegmentDuration;
             wordCount = length segmentWords;
             avgWordLength = div64 (real (foldl (\<lambda>sum word. sum + length word) 0 segmentWords))
                                   (real wordCount);
             durationMultiplier = max (binary64 0.8) (min 1.5 (div64 avgWordLength 5));
             segmentDuration = min (mul64 baseSegmentDuration durationMultiplier)
                                   (sub64 duration startTime);
             endTime = min (add64 startTime segmentDuration) duration
         in if startTime \<ge> duration then newSubtitles
            else buildSegments words duration (i + wordsPerSegment)
                   (newSubtitles @
                      [\<lparr>id_sub = ''subtitle-'' @ toString (int segmentIndex),
                        startTime = startTime,
                        endTime = endTime,
                        text_sub = join_js CHR '' '' segmentWords\<rparr>]))
      else newSubtitles)"
  by pat_completeness auto
termination
proof (relation "measure (\<lambda>(words, duration, i, newSubtitles). length words - i)", goal_cases)
  case 1
  show ?case by simp
next
  case prems: 2
  from prems(1) show ?case by (simp add: wordsPerSegment_def)
qed

declare buildSegments.simps [simp del]

text \<open>
  The pass under \<^verbatim>\<open>if (newSubtitles.length > 0)\<close>: \<^verbatim>\<open>forEach\<close> overwrites both
  bounds of the cue at each index.
\<close>

definition redistribute :: "real \<Rightarrow> Subtitle list \<Rightarrow> Subtitle list" where
  "redistribute duration newSubtitles =
     (if length newSubtitles > 0 then
        (let totalSubtitles = length newSubtitles;
             timePerSubtitle = div64 duration (real totalSubtitles)
         in map (\<lambda>(index, subtitle).
                   subtitle\<lparr>startTime := mul64 (real index) timePerSubtitle,
                            endTime := min (mul64 (real (index + 1)) timePerSubtitle)
                                           duration\<rparr>)
                (enumerate 0 newSubtitles))
      else newSubtitles)"

text \<open>The cue list handed to \<^verbatim>\<open>setSubtitles\<close> for a transcript and a duration.\<close>

definition segmentation :: "string \<Rightarrow> real \<Rightarrow> Subtitle list" where
  "segmentation text duration = redistribute duration (buildSegments (words_of text) duration 0 [])"

subsection \<open>Time format: rendering and parsing\<close>

text \<open>
  \<^verbatim>\<open>x % y\<close> on numbers is the remainder of the division truncated towards zero; it is
  used here with the divisors 60 and 1 only. The remainder of two binary64 values is a
  binary64 value, so nothing is rounded.
\<close>

definition trunc :: "real \<Rightarrow> int" where
  "trunc x = (if x < 0 then \<lceil>x\<rceil> else \<lfloor>x\<rfloor>)"

definition remainder :: "real \<Rightarrow> real \<Rightarrow> real" where
  "remainder x y = x - y * of_int (trunc (x / y))"

definition formatTime :: "real \<Rightarrow> string" where
  "formatTime seconds =
     (let mins = \<lfloor>div64 seconds 60\<rfloor>;
          secs = \<lfloor>remainder seconds 60\<rfloor>;
          ms = \<lfloor>mul64 (remainder seconds 1) 1000\<rfloor>
      in padStart 2 CHR ''0'' (toString mins) @ '':'' @
         padStart 2 CHR ''0'' (toString secs) @ ''.'' @
         padStart 3 CHR ''0'' (toString ms))"

text \<open>
  \<^verbatim>\<open>parseInt(s)\<close> with no radix: leading white space is skipped, one sign is read, a
  \<^verbatim>\<open>0x\<close> or \<^verbatim>\<open>0X\<close> prefix switches to radix 16, and the longest prefix of digits of
  the radix is the number, rounded to binary64; with no digit the result is \<^verbatim>\<open>NaN\<close>,
  here \<open>None\<close>.
\<close>

definition digitValue :: "char \<Rightarrow> nat" where
  "digitValue c =
     (let u = (of_char c :: nat)
      in if 48 \<le> u \<and> u \<le> 57 then u - 48
         else if 97 \<le> u \<and> u \<le> 122 then u - 87
         else if 65 \<le> u \<and> u \<le> 90 then u - 55
         else 36)"

definition isRadixDigit :: "nat \<Rightarrow> char \<Rightarrow> bool" where
  "isRadixDigit R c = (digitValue c < R)"

definition mathInt :: "nat \<Rightarrow> string \<Rightarrow> nat" where
  "mathInt R z = foldl (\<lambda>acc c. acc * R + digitValue c) 0 z"

definition parseInt :: "string \<Rightarrow> real option" where
  "parseInt inputString =
     (let S = trimStart inputString;
          sign = (if S \<noteq> [] \<and> hd S = CHR ''-'' then - 1 else 1 :: int);
          S1 = (if S \<noteq> [] \<and> (hd S = CHR ''+'' \<or> hd S = CHR ''-'') then tl S else S);
          hex = (length S1 \<ge> 2 \<and> (take 2 S1 = ''0x'' \<or> take 2 S1 = ''0X''));
          R = (if hex then 16 else 10);
          S2 = (if hex then drop 2 S1 else S1);
          Z = takeWhile (isRadixDigit R) S2
      in if Z = [] then None else Some (binary64 (of_int (sign * int (mathInt R Z)))))"

text \<open>\<^verbatim>\<open>parseInt(s) || 0\<close>: \<^verbatim>\<open>NaN\<close> and zero both give 0.\<close>

definition orZero :: "real option \<Rightarrow> real" where
  "orZero v = (case v of None \<Rightarrow> 0 | Some k \<Rightarrow> k)"

text \<open>
  In \<^verbatim>\<open>parseInt(secondsParts[1]?.padEnd(3, '0').slice(0, 3))\<close> a missing second piece
  makes the argument \<^verbatim>\<open>undefined\<close>, which \<^verbatim>\<open>parseInt\<close> reads as the string
  \<^verbatim>\<open>"undefined"\<close>.
\<close>

definition parseTime :: "string \<Rightarrow> real" where
  "parseTime timeString =
     (let parts = split_js CHR '':'' timeString
      in if length parts \<noteq> 2 then 0
         else
           (let minutes = orZero (parseInt (parts ! 0));
                secondsParts = split_js CHR ''.'' (parts ! 1);
                seconds = orZero (parseInt (secondsParts ! 0));
                milliseconds =
                  orZero (parseInt (if 1 < length secondsParts
                                    then slice_js (padEnd 3 CHR ''0'' (secondsParts ! 1)) 0 3
                                    else ''undefined''))
            in add64 (add64 (mul64 minutes 60) seconds) (div64 milliseconds 1000)))"

subsection \<open>Component state and its handlers\<close>

text \<open>
  The \<^verbatim>\<open>useState\<close> cells that the handlers below read or write. \<open>audioFile\<close> holds the
  file name, \<open>alerts\<close> the messages shown by \<^verbatim>\<open>alert\<close>, oldest first.
\<close>

record EditorState =
  audioFile :: "string option"
  user :: "string option"
  currentTime :: real
  duration :: real
  subtitles :: "Subtitle list"
  isTranscribing :: bool
  transcriptionProgress :: real
  selectedSubtitle :: "string option"
  currentSubtitleId :: "string option"
  alerts :: "string list"

text \<open>The initial values given to \<^verbatim>\<open>useState\<close>.\<close>

definition initialState :: EditorState where
  "initialState =
     \<lparr>audioFile = None, user = None, currentTime = 0, duration = 0, subtitles = [],
      isTranscribing = False, transcriptionProgress = 0, selectedSubtitle = None,
      currentSubtitleId = None, alerts = []\<rparr>"

text \<open>
  \<^verbatim>\<open>subtitles.find(sub => time >= sub.startTime && time <= sub.endTime)\<close>
\<close>

definition currentSub :: "real \<Rightarrow> Subtitle list \<Rightarrow> Subtitle option" where
  "currentSub time subs = find (\<lambda>sub. time \<ge> startTime sub \<and> time \<le> endTime sub) subs"

text \<open>
  The \<^verbatim>\<open>timeupdate\<close> listener; \<open>time\<close> is \<^verbatim>\<open>audio.currentTime\<close>. In
  \<^verbatim>\<open>currentSub?.id || null\<close> an empty id counts as no id.
\<close>

definition updateTime :: "real \<Rightarrow> EditorState \<Rightarrow> EditorState" where
  "updateTime time st =
     st\<lparr>currentTime := time,
        currentSubtitleId :=
          (case currentSub time (subtitles st) of
             None \<Rightarrow> None
           | Some sub \<Rightarrow> if id_sub sub = [] then None else Some (id_sub sub))\<rparr>"

definition updateSubtitleText :: "string \<Rightarrow> string \<Rightarrow> EditorState \<Rightarrow> EditorState" where
  "updateSubtitleText ident newText st =
     st\<lparr>subtitles :=
          map (\<lambda>sub. if id_sub sub = ident then sub\<lparr>text_sub := newText\<rparr> else sub)
              (subtitles st)\<rparr>"

definition updateSubtitleTiming :: "string \<Rightarrow> real \<Rightarrow> real \<Rightarrow> EditorState \<Rightarrow> EditorState" where
  "updateSubtitleTiming ident newStart newEnd st =
     st\<lparr>subtitles :=
          map (\<lambda>sub. if id_sub sub = ident then sub\<lparr>startTime := newStart, endTime := newEnd\<rparr>
                      else sub)
              (subtitles st)\<rparr>"

text \<open>
  The edit panel is rendered for
  \<^verbatim>\<open>subtitles.find(s => s.id === selectedSubtitle)\<close> when \<^verbatim>\<open>selectedSubtitle\<close> is
  neither null nor empty; its buttons close over that cue and over \<^verbatim>\<open>duration\<close>.
\<close>

definition editedCue :: "EditorState \<Rightarrow> Subtitle option" where
  "editedCue st =
     (case selectedSubtitle st of
        None \<Rightarrow> None
      | Some sel \<Rightarrow> if sel = [] then None else find (\<lambda>s. id_sub s = sel) (subtitles st))"

text \<open>The four quick timing buttons, by their labels.\<close>

definition nudgeStartMinus :: "EditorState \<Rightarrow> EditorState" where
  "nudgeStartMinus st =
     (case editedCue st of
        None \<Rightarrow> st
      | Some subtitle \<Rightarrow>
          (let newStartTime = max 0 (sub64 (startTime subtitle) 0.5)
           in updateSubtitleTiming (id_sub subtitle) newStartTime (endTime subtitle) st))"

definition nudgeStartPlus :: "EditorState \<Rightarrow> EditorState" where
  "nudgeStartPlus st =
     (case editedCue st of
        None \<Rightarrow> st
      | Some subtitle \<Rightarrow>
          (let newStartTime = min (sub64 (endTime subtitle) (binary64 0.1))
                                  (add64 (startTime subtitle) 0.5)
           in updateSubtitleTiming (id_sub subtitle) newStartTime (endTime subtitle) st))"

definition nudgeEndMinus :: "EditorState \<Rightarrow> EditorState" where
  "nudgeEndMinus st =
     (case editedCue st of
        None \<Rightarrow> st
      | Some subtitle \<Rightarrow>
          (let newEndTime = max (add64 (startTime subtitle) (binary64 0.1))
                                (sub64 (endTime subtitle) 0.5)
           in updateSubtitleTiming (id_sub subtitle) (startTime subtitle) newEndTime st))"

definition nudgeEndPlus :: "EditorState \<Rightarrow> EditorState" where
  "nudgeEndPlus st =
     (case editedCue st of
        None \<Rightarrow> st
      | Some subtitle \<Rightarrow>
          (let newEndTime = min (duration st) (add64 (endTime subtitle) 0.5)
           in updateSubtitleTiming (id_sub subtitle) (startTime subtitle) newEndTime st))"

text \<open>
  \<^verbatim>\<open>transcribeAudio\<close>. \<open>readResult\<close> is the outcome of reading the file as base64,
  \<open>provider\<close> the transcription service applied to the audio; \<open>Inl\<close> is a rejection.
  Either rejection enters \<^verbatim>\<open>catch\<close>, which alerts; \<^verbatim>\<open>finally\<close> runs on every path
  past the first guard. The periodic ticks of the cosmetic progress timer are left out.
\<close>

definition transcribeAudio ::
  "(string + string) \<Rightarrow> (string \<Rightarrow> string + string) \<Rightarrow> EditorState \<Rightarrow> EditorState" where
  "transcribeAudio readResult provider st =
     (if audioFile st = None \<or> user st = None then st
      else
        (let st1 = st\<lparr>isTranscribing := True, transcriptionProgress := 0\<rparr>;
             failed = st1\<lparr>alerts := alerts st1 @ [''Transcription failed. Please try again.'']\<rparr>;
             st2 = (case readResult of
                      Inl err \<Rightarrow> failed
                    | Inr base64Audio \<Rightarrow>
                        (case provider base64Audio of
                           Inl err \<Rightarrow> failed
                         | Inr text \<Rightarrow>
                             st1\<lparr>transcriptionProgress := 100,
                                 subtitles := segmentation text (duration st)\<rparr>))
         in st2\<lparr>isTranscribing := False, transcriptionProgress := 0\<rparr>))"

subsection \<open>The specification's wording, for comparison\<close>

text \<open>
  The specification describes tokenisation as splitting on white space and discarding
  empty tokens. This definition follows those words, not the code.
\<close>

fun spec_split_whitespace :: "string \<Rightarrow> string list" where
  "spec_split_whitespace [] = [[]]"
| "spec_split_whitespace (c # cs) =
     (if isWhiteSpace c then [] # spec_split_whitespace cs
      else (case spec_split_whitespace cs of
              [] \<Rightarrow> [[c]]
            | p # ps \<Rightarrow> (c # p) # ps))"

definition spec_tokenize :: "string \<Rightarrow> string list" where
  "spec_tokenize text = filter (\<lambda>w. w \<noteq> []) (spec_split_whitespace text)"

text \<open>
  The specification's time shape \<^verbatim>\<open>MM:SS.mmm\<close>: minutes of two or more digits, seconds
  of two digits, milliseconds of three digits, separated by a colon and a dot. This
  definition follows those words, not the code.
\<close>

definition isDecimalDigit :: "char \<Rightarrow> bool" where
  "isDecimalDigit c = (48 \<le> (of_char c :: nat) \<and> (of_char c :: nat) \<le> 57)"

definition spec_timeShape :: "string \<Rightarrow> bool" where
  "spec_timeShape s =
     (case split_js CHR '':'' s of
        [mm, rest] \<Rightarrow>
          (case split_js CHR ''.'' rest of
             [ss, mmm] \<Rightarrow>
               2 \<le> length mm \<and> list_all isDecimalDigit mm
               \<and> length ss = 2 \<and> list_all isDecimalDigit ss
               \<and> length mmm = 3 \<and> list_all isDecimalDigit mmm
           | _ \<Rightarrow> False)
      | _ \<Rightarrow> False)"

section \<open>Properties\<close>

subsection \<open>Exponent and rounding to an integer\<close>

lemma expo_bounds:
  "0 < x \<Longrightarrow> 2 powi (expo x) \<le> x \<and> x < 2 powi (expo x + 1)"
proof (induction x rule: expo.induct)
  case (1 x)
  show ?case
  proof (cases "2 \<le> x")
    case True
    then have e: "expo x = expo (x / 2) + 1" by (subst expo.simps) simp
    from True 1 have ih: "2 powi (expo (x / 2)) \<le> x / 2 \<and> x / 2 < 2 powi (expo (x / 2) + 1)"
      by simp
    have "(2::real) powi (expo (x / 2) + 1) = 2 powi (expo (x / 2)) * 2"
      by (rule power_int_add_1) simp
    moreover have "(2::real) powi (expo (x / 2) + 1 + 1) = 2 powi (expo (x / 2) + 1) * 2"
      by (rule power_int_add_1) simp
    ultimately show ?thesis using ih unfolding e by linarith
  next
    case False
    show ?thesis
    proof (cases "x < 1")
      case True
      with False "1.prems" have e: "expo x = expo (x * 2) - 1" by (subst expo.simps) simp
      from True False 1 have ih:
        "2 powi (expo (x * 2)) \<le> x * 2 \<and> x * 2 < 2 powi (expo (x * 2) + 1)"
        by simp
      have "(2::real) powi (expo (x * 2)) = 2 powi (expo (x * 2) - 1) * 2"
        using power_int_add_1 [of "2::real" "expo (x * 2) - 1"] by simp
      moreover have "(2::real) powi (expo (x * 2) + 1) = 2 powi (expo (x * 2)) * 2"
        by (rule power_int_add_1) simp
      ultimately show ?thesis using ih unfolding e by simp
    next
      case nlt: False
      with False have "expo x = 0" by (subst expo.simps) simp
      with False nlt show ?thesis by simp
    qed
  qed
qed

lemma expo_unique:
  assumes "0 < x" and "2 powi k \<le> x" and "x < 2 powi (k + 1)"
  shows "expo x = k"
proof -
  from expo_bounds [OF assms(1)]
  have lo: "2 powi (expo x) \<le> x" and hi: "x < 2 powi (expo x + 1)" by simp_all
  have "(2::real) powi k < 2 powi (expo x + 1)" using assms(2) hi by linarith
  then have "k < expo x + 1"
    by (metis power_int_increasing not_less one_le_numeral)
  moreover have "(2::real) powi (expo x) < 2 powi (k + 1)" using lo assms(3) by linarith
  then have "expo x < k + 1"
    by (metis power_int_increasing not_less one_le_numeral)
  ultimately show ?thesis by linarith
qed

lemma expo_mono:
  assumes "0 < x" and "x \<le> y"
  shows "expo x \<le> expo y"
proof -
  from assms have y: "0 < y" by linarith
  have "(2::real) powi (expo x) \<le> x" using expo_bounds [OF assms(1)] by simp
  also have "x \<le> y" by fact
  also have "y < 2 powi (expo y + 1)" using expo_bounds [OF y] by simp
  finally have "expo x < expo y + 1"
    by (metis power_int_increasing not_less one_le_numeral)
  then show ?thesis by linarith
qed

lemma roundTiesToEven_error: "\<bar>of_int (roundTiesToEven q) - q\<bar> \<le> 1 / 2"
  unfolding roundTiesToEven_def Let_def by (auto simp: abs_le_iff)

lemma roundTiesToEven_of_int [simp]: "roundTiesToEven (of_int m) = m"
  by (simp add: roundTiesToEven_def)

lemma roundTiesToEven_le:
  assumes "q \<le> of_int m"
  shows "roundTiesToEven q \<le> m"
proof (cases "q = of_int m")
  case True
  then show ?thesis by simp
next
  case False
  with assms have "q < of_int m" by simp
  then have "\<lfloor>q\<rfloor> < m" by (simp add: floor_less_iff)
  then have "\<lfloor>q\<rfloor> + 1 \<le> m" by simp
  moreover have "roundTiesToEven q \<le> \<lfloor>q\<rfloor> + 1"
    by (simp add: roundTiesToEven_def Let_def)
  ultimately show ?thesis by linarith
qed

lemma roundTiesToEven_ge:
  assumes "of_int m \<le> q"
  shows "m \<le> roundTiesToEven q"
proof -
  from assms have "m \<le> \<lfloor>q\<rfloor>" by (simp add: le_floor_iff)
  moreover have "\<lfloor>q\<rfloor> \<le> roundTiesToEven q"
    by (simp add: roundTiesToEven_def Let_def)
  ultimately show ?thesis by linarith
qed

subsection \<open>Rounding to binary64\<close>

lemma binary64_pos:
  assumes "0 < x"
  shows "binary64 x = of_int (roundTiesToEven (x / 2 powi (max (expo x) (- 1022) - 52)))
                      * 2 powi (max (expo x) (- 1022) - 52)"
  using assms by (simp add: binary64_def Let_def)

lemma binary64_zero [simp]: "binary64 0 = 0"
  by (simp add: binary64_def)

lemma binary64_nonneg:
  assumes "0 \<le> x"
  shows "0 \<le> binary64 x"
proof (cases "x = 0")
  case True
  then show ?thesis by simp
next
  case False
  with assms have x: "0 < x" by simp
  let ?u = "(2::real) powi (max (expo x) (- 1022) - 52)"
  have u: "0 < ?u" by simp
  then have "of_int 0 \<le> x / ?u" using x by simp
  then have "0 \<le> roundTiesToEven (x / ?u)" by (rule roundTiesToEven_ge)
  then show ?thesis using u by (simp add: binary64_pos [OF x])
qed

lemma expo_ge_normal:
  assumes "2 powi (- 1022) \<le> x"
  shows "- 1022 \<le> expo x"
proof -
  have "(0::real) < 2 powi (- 1022)" by simp
  with assms have x: "0 < x" by linarith
  have "(2::real) powi (- 1022) < 2 powi (expo x + 1)"
    using assms expo_bounds [OF x] by linarith
  then have "- 1022 < expo x + 1"
    by (metis power_int_increasing not_less one_le_numeral)
  then show ?thesis by linarith
qed

lemma binary64_error:
  assumes "2 powi (- 1022) \<le> x"
  shows "\<bar>binary64 x - x\<bar> \<le> x / 2 ^ 53"
proof -
  have "(0::real) < 2 powi (- 1022)" by simp
  with assms have x: "0 < x" by linarith
  define e where "e = expo x"
  define u where "u = (2::real) powi (e - 52)"
  have m: "max (expo x) (- 1022) = e" using expo_ge_normal [OF assms] by (simp add: e_def)
  have u: "0 < u" by (simp add: u_def)
  have fl: "binary64 x = of_int (roundTiesToEven (x / u)) * u"
    using binary64_pos [OF x] by (simp add: m u_def)
  have ueq: "u = 2 powi e / 2 ^ 52"
    unfolding u_def by (subst power_int_diff) simp_all
  have "binary64 x - x = (of_int (roundTiesToEven (x / u)) - x / u) * u"
    using u by (simp add: fl field_simps)
  then have "\<bar>binary64 x - x\<bar> = \<bar>of_int (roundTiesToEven (x / u)) - x / u\<bar> * u"
    using u by (simp add: abs_mult)
  also have "\<dots> \<le> 1 / 2 * u"
    using roundTiesToEven_error [of "x / u"] u by (intro mult_right_mono) simp_all
  also have "\<dots> = 2 powi e / 2 ^ 53" by (simp add: ueq)
  also have "\<dots> \<le> x / 2 ^ 53"
    using expo_bounds [OF x] by (simp add: e_def divide_right_mono)
  finally show ?thesis .
qed

lemma binary64_upper:
  assumes "2 powi (- 1022) \<le> x"
  shows "binary64 x \<le> x + x / 2 ^ 53"
  using binary64_error [OF assms] by linarith

lemma binary64_lower:
  assumes "2 powi (- 1022) \<le> x"
  shows "x - x / 2 ^ 53 \<le> binary64 x"
  using binary64_error [OF assms] by linarith

lemma scaled_below_two_pow_53:
  assumes "0 < x"
  shows "x / 2 powi (max (expo x) (- 1022) - 52) < 2 ^ 53"
proof -
  let ?e = "max (expo x) (- 1022)"
  have "x < 2 powi (expo x + 1)" using expo_bounds [OF assms] by simp
  also have "\<dots> \<le> 2 powi (?e + 1)" by (intro power_int_increasing) simp_all
  also have "?e + 1 = (?e - 52) + 53" by simp
  also have "(2::real) powi ((?e - 52) + 53) = 2 powi (?e - 52) * 2 powi 53"
    by (rule power_int_add) simp
  finally have "x < 2 powi (?e - 52) * 2 ^ 53" by simp
  then show ?thesis by (simp add: pos_divide_less_eq mult.commute)
qed

lemma double_multiple:
  assumes "0 < z" and "isDouble z"
  shows "z / 2 powi (max (expo z) (- 1022) - 52)
           = of_int (roundTiesToEven (z / 2 powi (max (expo z) (- 1022) - 52)))"
proof -
  let ?u = "(2::real) powi (max (expo z) (- 1022) - 52)"
  have "z = of_int (roundTiesToEven (z / ?u)) * ?u"
    using assms binary64_pos [OF assms(1)] by (simp add: isDouble_def)
  moreover have "0 < ?u" by simp
  ultimately show ?thesis by (metis nonzero_mult_div_cancel_right less_irrefl)
qed

lemma binary64_le_double:
  assumes x: "0 < x" and le: "x \<le> z" and z: "isDouble z"
  shows "binary64 x \<le> z"
proof -
  from x le have z0: "0 < z" by linarith
  define ex where "ex = max (expo x) (- 1022)"
  define ez where "ez = max (expo z) (- 1022)"
  define ux where "ux = (2::real) powi (ex - 52)"
  define uz where "uz = (2::real) powi (ez - 52)"
  have ux: "0 < ux" and uz: "0 < uz" by (simp_all add: ux_def uz_def)
  have fl: "binary64 x = of_int (roundTiesToEven (x / ux)) * ux"
    using binary64_pos [OF x] by (simp add: ux_def ex_def)
  have exz: "ex \<le> ez" using expo_mono [OF x le] by (simp add: ex_def ez_def)
  show ?thesis
  proof (cases "ex = ez")
    case True
    then have same: "ux = uz" by (simp add: ux_def uz_def)
    have zm: "z / uz = of_int (roundTiesToEven (z / uz))"
      using double_multiple [OF z0 z] by (simp add: uz_def ez_def)
    have "x / ux \<le> z / uz" using le ux by (simp add: same divide_right_mono)
    then have "x / ux \<le> of_int (roundTiesToEven (z / uz))" using zm by simp
    then have "roundTiesToEven (x / ux) \<le> roundTiesToEven (z / uz)"
      by (rule roundTiesToEven_le)
    then have "of_int (roundTiesToEven (x / ux)) * ux \<le> of_int (roundTiesToEven (z / uz)) * ux"
      using ux by (intro mult_right_mono) simp_all
    also have "\<dots> = z / uz * uz" using zm by (simp add: same)
    also have "\<dots> = z" using uz by simp
    finally show ?thesis by (simp add: fl)
  next
    case False
    with exz have lt: "ex < ez" by simp
    then have "ez = expo z" by (simp add: ez_def ex_def split: if_splits) (simp add: max_def split: if_splits)
    then have "2 powi ez \<le> z" using expo_bounds [OF z0] by simp
    moreover have "(2::real) powi (ex + 1) \<le> 2 powi ez"
      using lt by (intro power_int_increasing) simp_all
    ultimately have zge: "2 powi (ex + 1) \<le> z" by linarith
    have "x / ux < 2 ^ 53" using scaled_below_two_pow_53 [OF x] by (simp add: ux_def ex_def)
    then have "x / ux \<le> of_int (2 ^ 53)" by simp
    then have "roundTiesToEven (x / ux) \<le> 2 ^ 53" by (rule roundTiesToEven_le)
    then have "(of_int (roundTiesToEven (x / ux)) :: real) \<le> 2 ^ 53"
      by (metis of_int_le_iff of_int_numeral of_int_power)
    then have "of_int (roundTiesToEven (x / ux)) * ux \<le> 2 ^ 53 * ux"
      using ux by (intro mult_right_mono) simp_all
    also have "2 ^ 53 * ux = 2 powi (ex + 1)"
    proof -
      have "ex + 1 = 53 + (ex - 52)" by simp
      then have "(2::real) powi (ex + 1) = 2 powi 53 * 2 powi (ex - 52)"
        by (metis power_int_add zero_neq_numeral)
      then show ?thesis by (simp add: ux_def)
    qed
    finally show ?thesis using zge by (simp add: fl)
  qed
qed

lemma binary64_ge_double:
  assumes z0: "0 < z" and le: "z \<le> x" and z: "isDouble z"
  shows "z \<le> binary64 x"
proof -
  from z0 le have x: "0 < x" by linarith
  define ex where "ex = max (expo x) (- 1022)"
  define ez where "ez = max (expo z) (- 1022)"
  define ux where "ux = (2::real) powi (ex - 52)"
  define uz where "uz = (2::real) powi (ez - 52)"
  have ux: "0 < ux" and uz: "0 < uz" by (simp_all add: ux_def uz_def)
  have fl: "binary64 x = of_int (roundTiesToEven (x / ux)) * ux"
    using binary64_pos [OF x] by (simp add: ux_def ex_def)
  have ezx: "ez \<le> ex" using expo_mono [OF z0 le] by (simp add: ex_def ez_def)
  show ?thesis
  proof (cases "ex = ez")
    case True
    then have same: "ux = uz" by (simp add: ux_def uz_def)
    have zm: "z / uz = of_int (roundTiesToEven (z / uz))"
      using double_multiple [OF z0 z] by (simp add: uz_def ez_def)
    have "z / uz \<le> x / ux" using le ux by (simp add: same divide_right_mono)
    then have "of_int (roundTiesToEven (z / uz)) \<le> x / ux" using zm by simp
    then have "roundTiesToEven (z / uz) \<le> roundTiesToEven (x / ux)"
      by (rule roundTiesToEven_ge)
    then have "of_int (roundTiesToEven (z / uz)) * ux \<le> of_int (roundTiesToEven (x / ux)) * ux"
      using ux by (intro mult_right_mono) simp_all
    moreover have "of_int (roundTiesToEven (z / uz)) * ux = z"
      using zm uz by (simp add: same)
    ultimately show ?thesis by (simp add: fl)
  next
    case False
    with ezx have lt: "ez < ex" by simp
    then have exe: "ex = expo x" by (simp add: ex_def ez_def max_def split: if_splits)
    have "z < 2 powi (expo z + 1)" using expo_bounds [OF z0] by simp
    also have "\<dots> \<le> 2 powi (ez + 1)" by (intro power_int_increasing) (simp_all add: ez_def)
    also have "\<dots> \<le> 2 powi ex" using lt by (intro power_int_increasing) simp_all
    finally have zlt: "z < 2 powi ex" .
    have "2 powi ex \<le> x" using expo_bounds [OF x] exe by simp
    moreover have "(2::real) powi ex = 2 ^ 52 * ux"
    proof -
      have "ex = 52 + (ex - 52)" by simp
      then have "(2::real) powi ex = 2 powi 52 * 2 powi (ex - 52)"
        by (metis power_int_add zero_neq_numeral)
      then show ?thesis by (simp add: ux_def)
    qed
    ultimately have "2 ^ 52 * ux \<le> x" by simp
    then have "of_int (2 ^ 52) \<le> x / ux" using ux by (simp add: pos_le_divide_eq)
    then have "2 ^ 52 \<le> roundTiesToEven (x / ux)" by (rule roundTiesToEven_ge)
    then have "(2 ^ 52 :: real) \<le> of_int (roundTiesToEven (x / ux))"
      by (metis of_int_le_iff of_int_numeral of_int_power)
    then have "2 ^ 52 * ux \<le> of_int (roundTiesToEven (x / ux)) * ux"
      using ux by (intro mult_right_mono) simp_all
    then show ?thesis using zlt \<open>(2::real) powi ex = 2 ^ 52 * ux\<close> by (simp add: fl)
  qed
qed

lemma isDouble_scaled:
  assumes m: "0 < m" "m < 2 ^ 53" and k: "- 1074 \<le> k"
  shows "isDouble (of_int m * 2 powi k)"
proof -
  define x where "x = (of_int m :: real) * 2 powi k"
  have x: "0 < x" using m by (simp add: x_def)
  define e where "e = max (expo x) (- 1022)"
  have "(of_int m :: real) < 2 ^ 53"
    using m(2) by (metis of_int_less_iff of_int_numeral of_int_power)
  then have "x < 2 ^ 53 * 2 powi k" by (simp add: x_def)
  also have "\<dots> = 2 powi (k + 53)"
  proof -
    have "(2::real) powi (k + 53) = 2 powi k * 2 powi 53" by (rule power_int_add) simp
    then show ?thesis by simp
  qed
  finally have "x < 2 powi (k + 53)" .
  moreover have "2 powi (expo x) \<le> x" using expo_bounds [OF x] by simp
  ultimately have "(2::real) powi (expo x) < 2 powi (k + 53)" by linarith
  then have "expo x < k + 53" by (metis power_int_increasing not_less one_le_numeral)
  then have ek: "e - 52 \<le> k" using k by (simp add: e_def)
  define j where "j = nat (k - (e - 52))"
  have kj: "k = (e - 52) + int j" using ek by (simp add: j_def)
  have "(2::real) powi k = 2 powi (e - 52) * 2 powi (int j)"
    unfolding kj by (rule power_int_add) simp
  then have "x / 2 powi (e - 52) = of_int m * 2 ^ j" by (simp add: x_def)
  also have "\<dots> = of_int (m * 2 ^ j)" by simp
  finally have q: "x / 2 powi (e - 52) = of_int (m * 2 ^ j)" .
  have "binary64 x = of_int (roundTiesToEven (x / 2 powi (e - 52))) * 2 powi (e - 52)"
    using binary64_pos [OF x] by (simp add: e_def)
  also have "\<dots> = of_int (m * 2 ^ j) * 2 powi (e - 52)" by (simp only: q roundTiesToEven_of_int)
  also have "\<dots> = x / 2 powi (e - 52) * 2 powi (e - 52)" by (simp only: q)
  also have "\<dots> = x" by simp
  finally show ?thesis by (simp add: isDouble_def x_def)
qed

lemma isDouble_zero [simp]: "isDouble 0"
  by (simp add: isDouble_def)

lemma isDouble_of_nat:
  assumes "n < 2 ^ 53"
  shows "isDouble (real n)"
proof (cases "n = 0")
  case True
  then show ?thesis by simp
next
  case False
  have "int n < 2 ^ 53" using assms by (metis of_nat_less_iff of_nat_numeral of_nat_power)
  with False have "isDouble (of_int (int n) * 2 powi 0)"
    by (intro isDouble_scaled) simp_all
  then show ?thesis by simp
qed

subsection \<open>Splitting and trimming\<close>

lemma split_js_not_Nil: "split_js sep s \<noteq> []"
  by (induction s) (auto split: list.splits)

lemma in_split_js_iff:
  "(\<exists>w \<in> set (split_js sep s). c \<in> set w) \<longleftrightarrow> c \<in> set s \<and> c \<noteq> sep"
proof (induction s)
  case Nil
  show ?case by simp
next
  case (Cons a s)
  obtain p ps where ps: "split_js sep s = p # ps"
    using split_js_not_Nil [of sep s] by (cases "split_js sep s") auto
  show ?case
  proof (cases "a = sep")
    case True
    with Cons show ?thesis by auto
  next
    case False
    with Cons ps show ?thesis by auto
  qed
qed

lemma trim_Nil_iff: "trim w = [] \<longleftrightarrow> list_all isWhiteSpace w"
proof
  assume "trim w = []"
  then have "\<forall>x \<in> set (dropWhile isWhiteSpace w). isWhiteSpace x"
    by (simp add: trim_def dropWhile_eq_Nil_conv)
  then have "dropWhile isWhiteSpace w = []"
    by (metis hd_dropWhile list.set_sel(1))
  then show "list_all isWhiteSpace w"
    by (simp add: dropWhile_eq_Nil_conv list_all_iff)
next
  assume "list_all isWhiteSpace w"
  then show "trim w = []"
    by (auto simp: trim_def dropWhile_eq_Nil_conv list_all_iff dest: set_dropWhileD)
qed

lemma words_of_alt:
  "words_of t = filter (\<lambda>w. \<not> list_all isWhiteSpace w) (split_js CHR '' '' t)"
  by (simp add: words_of_def trim_Nil_iff)

lemma words_of_not_Nil:
  assumes "c \<in> set t" and "\<not> isWhiteSpace c"
  shows "words_of t \<noteq> []"
proof -
  from assms(2) have "c \<noteq> CHR '' ''" by (auto simp: isWhiteSpace_def)
  with assms(1) obtain w where w: "w \<in> set (split_js CHR '' '' t)" "c \<in> set w"
    using in_split_js_iff [of "CHR '' ''" t c] by blast
  with assms(2) have "\<not> list_all isWhiteSpace w" by (auto simp: list_all_iff)
  with w(1) have "w \<in> set (words_of t)" by (simp add: words_of_alt)
  then show ?thesis by auto
qed

lemma words_of_whitespace:
  assumes "list_all isWhiteSpace t"
  shows "words_of t = []"
proof -
  have "\<And>w. w \<in> set (split_js CHR '' '' t) \<Longrightarrow> list_all isWhiteSpace w"
  proof -
    fix w assume "w \<in> set (split_js CHR '' '' t)"
    then have "set w \<subseteq> set t"
      using in_split_js_iff [of "CHR '' ''" t] by blast
    with assms show "list_all isWhiteSpace w" by (auto simp: list_all_iff)
  qed
  then show ?thesis by (auto simp: words_of_alt filter_empty_conv)
qed

subsection \<open>The segment loop\<close>

lemma buildSegments_stop:
  assumes "\<not> (i < length ws \<and> mul64 (real (i div wordsPerSegment)) baseSegmentDuration < d)"
  shows "buildSegments ws d i acc = acc"
  using assms by (subst buildSegments.simps) (auto simp: Let_def)

lemma buildSegments_iter:
  assumes "i < length ws"
    and "mul64 (real (i div wordsPerSegment)) baseSegmentDuration = st"
    and "st < d"
    and "slice_js ws i (i + wordsPerSegment) = sw"
    and "min (add64 st
              (min (mul64 baseSegmentDuration
                     (max (binary64 0.8)
                        (min 1.5
                           (div64 (div64 (real (foldl (\<lambda>sum word. sum + length word) 0 sw))
                                         (real (length sw))) 5))))
                   (sub64 d st))) d = en"
  shows "buildSegments ws d i acc =
           buildSegments ws d (i + wordsPerSegment)
             (acc @ [\<lparr>id_sub = ''subtitle-'' @ toString (int (i div wordsPerSegment)),
                      startTime = st, endTime = en, text_sub = join_js CHR '' '' sw\<rparr>])"
proof -
  have nb: "\<not> d \<le> mul64 (real (i div wordsPerSegment)) baseSegmentDuration"
    using assms(2,3) by simp
  show ?thesis
    unfolding assms(5) [symmetric] assms(4) [symmetric] assms(2) [symmetric]
    using assms(1) nb by (subst buildSegments.simps) (simp add: Let_def)
qed

lemma buildSegments_step:
  assumes "i < length ws"
    and "mul64 (real (i div wordsPerSegment)) baseSegmentDuration < d"
  shows "\<exists>x. id_sub x \<noteq> []
             \<and> buildSegments ws d i acc = buildSegments ws d (i + wordsPerSegment) (acc @ [x])"
proof -
  let ?x = "\<lparr>id_sub = ''subtitle-'' @ toString (int (i div wordsPerSegment)),
             startTime = mul64 (real (i div wordsPerSegment)) baseSegmentDuration,
             endTime = min (add64 (mul64 (real (i div wordsPerSegment)) baseSegmentDuration)
              (min (mul64 baseSegmentDuration
                     (max (binary64 0.8)
                        (min 1.5
                           (div64 (div64 (real (foldl (\<lambda>sum word. sum + length word) 0
                                                  (slice_js ws i (i + wordsPerSegment))))
                                         (real (length (slice_js ws i (i + wordsPerSegment)))))
                                  5))))
                   (sub64 d (mul64 (real (i div wordsPerSegment)) baseSegmentDuration)))) d,
             text_sub = join_js CHR '' '' (slice_js ws i (i + wordsPerSegment))\<rparr>"
  have "buildSegments ws d i acc = buildSegments ws d (i + wordsPerSegment) (acc @ [?x])"
    using assms(1) refl assms(2) refl refl by (rule buildSegments_iter)
  moreover have "id_sub ?x \<noteq> []" by simp
  ultimately show ?thesis by blast
qed

lemma buildSegments_prefix: "\<exists>ys. buildSegments ws d i acc = acc @ ys"
proof (induction "length ws - i" arbitrary: i acc rule: less_induct)
  case less
  show ?case
  proof (cases "i < length ws \<and> mul64 (real (i div wordsPerSegment)) baseSegmentDuration < d")
    case True
    then obtain x where x:
      "buildSegments ws d i acc = buildSegments ws d (i + wordsPerSegment) (acc @ [x])"
      using buildSegments_step by blast
    have "length ws - (i + wordsPerSegment) < length ws - i"
      using True by (auto simp: wordsPerSegment_def)
    then obtain ys where "buildSegments ws d (i + wordsPerSegment) (acc @ [x]) = (acc @ [x]) @ ys"
      using less by blast
    with x show ?thesis by simp
  next
    case False
    then show ?thesis by (simp add: buildSegments_stop)
  qed
qed

lemma buildSegments_push_bound:
  assumes "buildSegments ws d i acc \<noteq> acc"
  shows "i < length ws" and "mul64 (real (i div wordsPerSegment)) baseSegmentDuration < d"
  using assms buildSegments_stop [of i ws d acc] by auto

lemma buildSegments_pushes_only_when_positive:
  assumes "buildSegments ws d i acc \<noteq> acc"
  shows "0 < d"
proof -
  have "0 \<le> mul64 (real (i div wordsPerSegment)) baseSegmentDuration"
    unfolding mul64_def by (rule binary64_nonneg) (simp add: baseSegmentDuration_def)
  with buildSegments_push_bound(2) [OF assms] show ?thesis by linarith
qed

lemma buildSegments_first:
  assumes "ws \<noteq> []" and "0 < d"
  shows "buildSegments ws d 0 [] \<noteq> []"
proof -
  have "mul64 (real (0 div wordsPerSegment)) baseSegmentDuration < d"
    using assms(2) by (simp add: mul64_def)
  moreover have "0 < length ws" using assms(1) by simp
  ultimately obtain x where
    x: "buildSegments ws d 0 [] = buildSegments ws d (0 + wordsPerSegment) ([] @ [x])"
    using buildSegments_step by blast
  obtain ys where "buildSegments ws d (0 + wordsPerSegment) ([] @ [x]) = ([] @ [x]) @ ys"
    using buildSegments_prefix by blast
  with x show ?thesis by simp
qed

lemma binary64_five_halves: "binary64 (5 / 2) = 5 / 2"
  by (simp add: binary64_def expo.simps roundTiesToEven_def Let_def)

lemma buildSegments_second_push:
  assumes "2 \<le> length (buildSegments ws d 0 [])"
  shows "5 / 2 < d"
proof -
  have ne: "buildSegments ws d 0 [] \<noteq> []" using assms by auto
  from buildSegments_push_bound [OF ne] obtain x where
    x: "buildSegments ws d 0 [] = buildSegments ws d (0 + wordsPerSegment) ([] @ [x])"
    using buildSegments_step by blast
  with assms have "buildSegments ws d (0 + wordsPerSegment) ([] @ [x]) \<noteq> [] @ [x]" by auto
  then have "mul64 (real ((0 + wordsPerSegment) div wordsPerSegment)) baseSegmentDuration < d"
    by (rule buildSegments_push_bound(2))
  then show ?thesis
    by (simp add: wordsPerSegment_def baseSegmentDuration_def mul64_def binary64_five_halves)
qed

lemma buildSegments_length:
  "length (buildSegments ws d i acc) \<le> length acc + (length ws - i)"
proof (induction "length ws - i" arbitrary: i acc rule: less_induct)
  case less
  show ?case
  proof (cases "i < length ws \<and> mul64 (real (i div wordsPerSegment)) baseSegmentDuration < d")
    case True
    then obtain x where x:
      "buildSegments ws d i acc = buildSegments ws d (i + wordsPerSegment) (acc @ [x])"
      using buildSegments_step by blast
    have dec: "length ws - (i + wordsPerSegment) < length ws - i"
      using True by (auto simp: wordsPerSegment_def)
    then have "length (buildSegments ws d (i + wordsPerSegment) (acc @ [x]))
                 \<le> length (acc @ [x]) + (length ws - (i + wordsPerSegment))"
      by (rule less)
    with x dec show ?thesis by simp
  next
    case False
    then show ?thesis by (simp add: buildSegments_stop)
  qed
qed

lemma buildSegments_ids:
  "list_all (\<lambda>s. id_sub s \<noteq> []) acc \<Longrightarrow>
   list_all (\<lambda>s. id_sub s \<noteq> []) (buildSegments ws d i acc)"
proof (induction "length ws - i" arbitrary: i acc rule: less_induct)
  case less
  show ?case
  proof (cases "i < length ws \<and> mul64 (real (i div wordsPerSegment)) baseSegmentDuration < d")
    case True
    then obtain x where x: "id_sub x \<noteq> []"
      "buildSegments ws d i acc = buildSegments ws d (i + wordsPerSegment) (acc @ [x])"
      using buildSegments_step by blast
    have dec: "length ws - (i + wordsPerSegment) < length ws - i"
      using True by (auto simp: wordsPerSegment_def)
    have "list_all (\<lambda>s. id_sub s \<noteq> []) (acc @ [x])" using less.prems x(1) by simp
    with dec have "list_all (\<lambda>s. id_sub s \<noteq> [])
                     (buildSegments ws d (i + wordsPerSegment) (acc @ [x]))"
      by (rule less.hyps)
    with x(2) show ?thesis by simp
  next
    case False
    then show ?thesis using less.prems by (simp add: buildSegments_stop)
  qed
qed

lemma split_js_no_sep: "p \<in> set (split_js sep s) \<Longrightarrow> sep \<notin> set p"
  using in_split_js_iff [of sep s sep] by blast

lemma join_split_js: "join_js sep (split_js sep s) = s"
proof (induction s)
  case Nil
  show ?case by simp
next
  case (Cons a s)
  obtain p ps where ps: "split_js sep s = p # ps"
    using split_js_not_Nil [of sep s] by (cases "split_js sep s") auto
  show ?case
  proof (cases "a = sep")
    case True
    with Cons ps show ?thesis by simp
  next
    case False
    with Cons ps show ?thesis by (cases ps) simp_all
  qed
qed

subsection \<open>The redistribution pass\<close>

lemma length_redistribute: "length (redistribute d xs) = length xs"
  by (simp add: redistribute_def Let_def)

lemma redistribute_nth:
  assumes "k < length xs"
  shows "redistribute d xs ! k =
           (xs ! k)\<lparr>startTime := mul64 (real k) (div64 d (real (length xs))),
                    endTime := min (mul64 (real (k + 1)) (div64 d (real (length xs)))) d\<rparr>"
proof -
  from assms have "xs \<noteq> []" by auto
  with assms show ?thesis by (simp add: redistribute_def Let_def nth_enumerate_eq)
qed

lemma redistribute_start:
  "k < length xs \<Longrightarrow>
   startTime (redistribute d xs ! k) = mul64 (real k) (div64 d (real (length xs)))"
  by (simp add: redistribute_nth)

lemma redistribute_end:
  "k < length xs \<Longrightarrow>
   endTime (redistribute d xs ! k) = min (mul64 (real (k + 1)) (div64 d (real (length xs)))) d"
  by (simp add: redistribute_nth)

lemma redistribute_ids: "map id_sub (redistribute d xs) = map id_sub xs"
  by (auto simp: redistribute_def Let_def enumerate_eq_zip intro!: nth_equalityI)

lemma redistribute_hd_start:
  assumes "xs \<noteq> []"
  shows "startTime (hd (redistribute d xs)) = 0"
proof -
  have "redistribute d xs \<noteq> []" using assms length_redistribute [of d xs] by auto
  then have "hd (redistribute d xs) = redistribute d xs ! 0" by (simp add: hd_conv_nth)
  with assms show ?thesis by (simp add: redistribute_start mul64_def)
qed

lemma redistribute_last_end:
  assumes "xs \<noteq> []"
  shows "endTime (last (redistribute d xs))
           = min (mul64 (real (length xs)) (div64 d (real (length xs)))) d"
proof -
  have ne: "redistribute d xs \<noteq> []" using assms length_redistribute [of d xs] by auto
  have "last (redistribute d xs) = redistribute d xs ! (length xs - 1)"
    using ne by (simp add: last_conv_nth length_redistribute)
  moreover have "length xs - 1 < length xs" using assms by simp
  moreover have "length xs - 1 + 1 = length xs" using assms by simp
  ultimately show ?thesis by (simp add: redistribute_end)
qed

lemma segmentation_nonempty_positive:
  assumes "segmentation t d \<noteq> []"
  shows "0 < d" and "buildSegments (words_of t) d 0 [] \<noteq> []"
proof -
  show ne: "buildSegments (words_of t) d 0 [] \<noteq> []"
    using assms by (auto simp: segmentation_def redistribute_def)
  then show "0 < d" by (rule buildSegments_pushes_only_when_positive)
qed

lemma segmentation_ids_nonempty: "list_all (\<lambda>s. id_sub s \<noteq> []) (segmentation t d)"
proof -
  have "list_all (\<lambda>s. id_sub s \<noteq> []) (buildSegments (words_of t) d 0 [])"
    by (rule buildSegments_ids) simp
  then have "[] \<notin> set (map id_sub (buildSegments (words_of t) d 0 []))"
    by (auto simp: list_all_iff)
  then have "[] \<notin> set (map id_sub (segmentation t d))"
    unfolding segmentation_def redistribute_ids .
  then show ?thesis by (force simp: list_all_iff)
qed

lemma segmentation_no_words: "words_of t = [] \<Longrightarrow> segmentation t d = []"
  by (simp add: segmentation_def buildSegments.simps redistribute_def)

subsection \<open>Evaluation at sample inputs\<close>

lemmas eval64 = add64_def sub64_def mul64_def div64_def binary64_def expo.simps
  roundTiesToEven_def

lemma redistribute_two:
  "redistribute d [a, b] =
     [a\<lparr>startTime := mul64 0 (div64 d 2), endTime := min (mul64 1 (div64 d 2)) d\<rparr>,
      b\<lparr>startTime := mul64 1 (div64 d 2), endTime := min (mul64 2 (div64 d 2)) d\<rparr>]"
  by (simp add: redistribute_def enumerate_eq_zip upt_rec Let_def)

lemma example_words:
  "words_of ''one two three four five six seven eight'' =
     [''one'', ''two'', ''three'', ''four'', ''five'', ''six'', ''seven'', ''eight'']"
  by (simp add: words_of_def trim_def isWhiteSpace_def)

lemma example_windows:
  "buildSegments [''one'', ''two'', ''three'', ''four'', ''five'', ''six'', ''seven'', ''eight'']
       10 0 [] =
     [\<lparr>id_sub = ''subtitle-0'', startTime = 0, endTime = 2,
       text_sub = ''one two three four''\<rparr>,
      \<lparr>id_sub = ''subtitle-1'', startTime = 5 / 2, endTime = 37 / 8,
       text_sub = ''five six seven eight''\<rparr>]"
proof -
  let ?W = "[''one'', ''two'', ''three'', ''four'', ''five'', ''six'', ''seven'', ''eight'']"
  have a1: "0 < length ?W" by simp
  have a2: "mul64 (real (0 div wordsPerSegment)) baseSegmentDuration = 0"
    by (simp add: mul64_def)
  have a3: "(0::real) < 10" by simp
  have a4: "slice_js ?W 0 (0 + wordsPerSegment) = [''one'', ''two'', ''three'', ''four'']"
    by (simp add: slice_js_def wordsPerSegment_def)
  have a5: "min (add64 0
              (min (mul64 baseSegmentDuration
                     (max (binary64 0.8)
                        (min 1.5
                           (div64 (div64 (real (foldl (\<lambda>sum word. sum + length word) 0
                                                  [''one'', ''two'', ''three'', ''four'']))
                                         (real (length [''one'', ''two'', ''three'', ''four''])))
                                  5))))
                   (sub64 10 0))) 10 = 2"
    by (simp add: baseSegmentDuration_def eval64 Let_def)
  have s1: "buildSegments ?W 10 0 [] =
              buildSegments ?W 10 4
                [\<lparr>id_sub = ''subtitle-0'', startTime = 0, endTime = 2,
                  text_sub = ''one two three four''\<rparr>]"
    using buildSegments_iter [OF a1 a2 a3 a4 a5, of "[]"]
    by (simp add: wordsPerSegment_def toString_def digits.simps digitChar_def)
  have b1: "4 < length ?W" by simp
  have b2: "mul64 (real (4 div wordsPerSegment)) baseSegmentDuration = 5 / 2"
    by (simp add: wordsPerSegment_def baseSegmentDuration_def eval64 Let_def)
  have b3: "(5 / 2 :: real) < 10" by simp
  have b4: "slice_js ?W 4 (4 + wordsPerSegment) = [''five'', ''six'', ''seven'', ''eight'']"
    by (simp add: slice_js_def wordsPerSegment_def)
  have b5: "min (add64 (5 / 2)
              (min (mul64 baseSegmentDuration
                     (max (binary64 0.8)
                        (min 1.5
                           (div64 (div64 (real (foldl (\<lambda>sum word. sum + length word) 0
                                                  [''five'', ''six'', ''seven'', ''eight'']))
                                         (real (length [''five'', ''six'', ''seven'', ''eight''])))
                                  5))))
                   (sub64 10 (5 / 2)))) 10 = 37 / 8"
    by (simp add: baseSegmentDuration_def eval64 Let_def)
  have s2: "buildSegments ?W 10 4
                [\<lparr>id_sub = ''subtitle-0'', startTime = 0, endTime = 2,
                  text_sub = ''one two three four''\<rparr>] =
            buildSegments ?W 10 8
                [\<lparr>id_sub = ''subtitle-0'', startTime = 0, endTime = 2,
                  text_sub = ''one two three four''\<rparr>,
                 \<lparr>id_sub = ''subtitle-1'', startTime = 5 / 2, endTime = 37 / 8,
                  text_sub = ''five six seven eight''\<rparr>]"
    using buildSegments_iter [OF b1 b2 b3 b4 b5,
        of "[\<lparr>id_sub = ''subtitle-0'', startTime = 0, endTime = 2,
               text_sub = ''one two three four''\<rparr>]"]
    by (simp add: wordsPerSegment_def toString_def digits.simps digitChar_def)
  have s3: "buildSegments ?W 10 8 acc = acc" for acc
    by (rule buildSegments_stop) simp
  show ?thesis by (simp only: s1 s2 s3)
qed

lemma example_cues:
  "segmentation ''one two three four five six seven eight'' 10 =
     [\<lparr>id_sub = ''subtitle-0'', startTime = 0, endTime = 5,
       text_sub = ''one two three four''\<rparr>,
      \<lparr>id_sub = ''subtitle-1'', startTime = 5, endTime = 10,
       text_sub = ''five six seven eight''\<rparr>]"
proof -
  have t: "div64 10 2 = 5" by (simp add: eval64 Let_def)
  have m: "mul64 0 5 = 0" "mul64 1 5 = 5" "mul64 2 5 = 10" by (simp_all add: eval64 Let_def)
  show ?thesis
    by (simp add: segmentation_def example_words example_windows redistribute_two t m)
qed

text \<open>
  Claim C1, as stated, gives the two cues the ids 0 and 1. The loop names each cue
  \<^verbatim>\<open>`subtitle-${segmentIndex}`\<close>, so the list with the ids rendered as \<open>0\<close> and \<open>1\<close>
  is not the list that is produced.
\<close>

theorem scenario_ids_are_not_indices:
  "segmentation ''one two three four five six seven eight'' 10 \<noteq>
     [\<lparr>id_sub = ''0'', startTime = 0, endTime = 5, text_sub = ''one two three four''\<rparr>,
      \<lparr>id_sub = ''1'', startTime = 5, endTime = 10, text_sub = ''five six seven eight''\<rparr>]"
  by (simp add: example_cues)

text \<open>
  Claim C1, amended: for the transcript \<open>one two three four five six seven eight\<close> and a
  duration of 10, the loop produces exactly two windows, of four words each (from 0 to 2
  and from 2.5 to 4.625), and after the redistribution pass the cue list is exactly the cue
  \<open>subtitle-0\<close> from 0 to 5 with text \<open>one two three four\<close> followed by the cue
  \<open>subtitle-1\<close> from 5 to 10 with text \<open>five six seven eight\<close>.
\<close>

theorem scenario_eight_words:
  "words_of ''one two three four five six seven eight'' =
       [''one'', ''two'', ''three'', ''four'', ''five'', ''six'', ''seven'', ''eight'']
   \<and> buildSegments (words_of ''one two three four five six seven eight'') 10 0 [] =
       [\<lparr>id_sub = ''subtitle-0'', startTime = 0, endTime = 2,
         text_sub = join_js CHR '' '' [''one'', ''two'', ''three'', ''four'']\<rparr>,
        \<lparr>id_sub = ''subtitle-1'', startTime = 5 / 2, endTime = 37 / 8,
         text_sub = join_js CHR '' '' [''five'', ''six'', ''seven'', ''eight'']\<rparr>]
   \<and> segmentation ''one two three four five six seven eight'' 10 =
       [\<lparr>id_sub = ''subtitle-0'', startTime = 0, endTime = 5,
         text_sub = ''one two three four''\<rparr>,
        \<lparr>id_sub = ''subtitle-1'', startTime = 5, endTime = 10,
         text_sub = ''five six seven eight''\<rparr>]"
  by (simp add: example_words example_windows example_cues)

subsection \<open>The uniform partition in binary64\<close>

lemma tiny_le: "(2::real) powi (- 1022) \<le> 1 / 2 ^ 40"
proof -
  have "(2::real) powi (- 1022) \<le> 2 powi (- 40)"
    by (intro power_int_increasing) simp_all
  then show ?thesis by (simp add: power_int_minus_divide)
qed

lemma binary64_pos_normal:
  assumes "1 / 2 ^ 40 \<le> x"
  shows "x - x / 2 ^ 53 \<le> binary64 x" and "binary64 x \<le> x + x / 2 ^ 53" and "0 < binary64 x"
proof -
  have n: "2 powi (- 1022) \<le> x" using assms tiny_le by linarith
  show lo: "x - x / 2 ^ 53 \<le> binary64 x" by (rule binary64_lower [OF n])
  show "binary64 x \<le> x + x / 2 ^ 53" by (rule binary64_upper [OF n])
  have "0 < x" using assms by (smt (verit) divide_pos_pos zero_less_numeral zero_less_one zero_less_power)
  then have "0 < x - x / 2 ^ 53" by (simp add: field_simps)
  with lo show "0 < binary64 x" by linarith
qed

lemma uniform_partition:
  fixes d :: real and N :: nat
  assumes d: "5 / 2 < d" "isDouble d" and N: "2 \<le> N" "N < 2 ^ 32"
  shows "\<And>k. 0 < k \<Longrightarrow> k < N \<Longrightarrow> mul64 (real k) (div64 d (real N)) \<le> d"
    and "\<And>k. k < N \<Longrightarrow> mul64 (real k) (div64 d (real N)) < mul64 (real (k + 1)) (div64 d (real N))"
    and "\<And>k. k < N \<Longrightarrow> mul64 (real k) (div64 d (real N)) < d"
    and "d - d / 2 ^ 52 \<le> mul64 (real N) (div64 d (real N))"
proof -
  define r where "r = d / real N"
  define tps where "tps = div64 d (real N)"
  define eps where "eps = (1::real) / 2 ^ 53"
  have Npos: "0 < real N" using N(1) by simp
  have NrealLt: "real N < 2 ^ 32" using N(2) by (metis of_nat_less_iff of_nat_numeral of_nat_power)
  have rN: "r * real N = d" using Npos by (simp add: r_def)
  have rpos: "0 < r" using d(1) Npos by (simp add: r_def)
  have "d / 2 ^ 32 < r"
    unfolding r_def using d(1) NrealLt Npos by (intro divide_strict_left_mono) simp_all
  then have rbig: "1 / 2 ^ 32 \<le> r" using d(1) by (simp add: field_simps) 
  then have rn: "1 / 2 ^ 40 \<le> r" by (simp add: field_simps) 
  have tps_lo: "r - r * eps \<le> tps" and tps_hi: "tps \<le> r + r * eps" and tps_pos: "0 < tps"
    using binary64_pos_normal [OF rn] by (simp_all add: tps_def div64_def r_def eps_def)
  have eps_pos: "0 < eps" and eps_small: "eps \<le> 1 / 2" by (simp_all add: eps_def)
  have tps_half: "r / 2 \<le> tps"
  proof -
    have "r * eps \<le> r * (1 / 2)" using rpos eps_small by (intro mult_left_mono) simp_all
    with tps_lo show ?thesis by simp
  qed
  have prod_normal: "1 / 2 ^ 40 \<le> real k * tps" if "0 < k" for k
  proof -
    have "1 \<le> real k" using that by simp
    then have "1 * tps \<le> real k * tps" using tps_pos by (intro mult_right_mono) simp_all
    moreover have "1 / 2 ^ 40 \<le> r / 2" using rbig by (simp add: field_simps)
    ultimately show ?thesis using tps_half by linarith
  qed
  have fl_lo: "real k * tps - real k * tps * eps \<le> mul64 (real k) tps"
    and fl_hi: "mul64 (real k) tps \<le> real k * tps + real k * tps * eps"
    and fl_pos: "0 < mul64 (real k) tps" if "0 < k" for k
    using binary64_pos_normal [OF prod_normal [OF that]] by (simp_all add: mul64_def eps_def)
  have keps: "real k * eps \<le> 1 / 2 ^ 21" if "k \<le> N" for k
  proof -
    have "real k \<le> real N" using that by simp
    then have "real k < 2 ^ 32" using NrealLt by linarith
    then have "real k * eps \<le> 2 ^ 32 * eps" using eps_pos by (intro mult_right_mono) simp_all
    then show ?thesis by (simp add: eps_def)
  qed
  have prod_hi: "real k * tps \<le> r * (real k + real k * eps)" for k
  proof -
    have "real k * tps \<le> real k * (r + r * eps)" using tps_hi by (intro mult_left_mono) simp_all
    then show ?thesis by (simp add: algebra_simps)
  qed
  have prod_lo: "r * (real k - real k * eps) \<le> real k * tps" for k
  proof -
    have "real k * (r - r * eps) \<le> real k * tps" using tps_lo by (intro mult_left_mono) simp_all
    then show ?thesis by (simp add: algebra_simps)
  qed
  show A: "mul64 (real k) (div64 d (real N)) \<le> d" if "0 < k" "k < N" for k
  proof -
    have k1: "real k + 1 \<le> real N" using that(2) by (metis Suc_leI of_nat_Suc of_nat_le_iff add.commute)
    have "real k + real k * eps \<le> real N" using keps [of k] that(2) k1 by simp
    then have "r * (real k + real k * eps) \<le> r * real N" using rpos by (intro mult_left_mono) simp_all
    then have "real k * tps \<le> d" using prod_hi [of k] rN by linarith
    moreover have "0 < real k * tps" using that(1) tps_pos by simp
    ultimately have "binary64 (real k * tps) \<le> d" using d(2) by (intro binary64_le_double)
    then show ?thesis by (simp add: mul64_def tps_def)
  qed
  show B: "mul64 (real k) (div64 d (real N)) < mul64 (real (k + 1)) (div64 d (real N))"
    if "k < N" for k
  proof (cases "k = 0")
    case True
    then show ?thesis using fl_pos [of 1] by (simp add: mul64_def tps_def)
  next
    case False
    then have k: "0 < k" by simp
    have ke: "real k * eps \<le> 1 / 2 ^ 21" using keps [of k] that by simp
    have k1e: "real (k + 1) * eps \<le> 1 / 2 ^ 21" using keps [of "k + 1"] that by simp
    have t2: "tps \<le> 2 * r"
    proof -
      have "r * eps \<le> r * 1" using rpos eps_small by (intro mult_left_mono) simp_all
      with tps_hi show ?thesis by simp
    qed
    have u: "real k * tps * eps \<le> tps * (1 / 2 ^ 21)"
    proof -
      have "tps * (real k * eps) \<le> tps * (1 / 2 ^ 21)"
        using ke tps_pos by (intro mult_left_mono) simp_all
      then show ?thesis by (simp add: algebra_simps)
    qed
    have v: "real (k + 1) * tps * eps \<le> tps * (1 / 2 ^ 21)"
    proof -
      have "tps * (real (k + 1) * eps) \<le> tps * (1 / 2 ^ 21)"
        using k1e tps_pos by (intro mult_left_mono) simp_all
      then show ?thesis by (simp add: algebra_simps)
    qed
    have "mul64 (real k) tps \<le> real k * tps + tps * (1 / 2 ^ 21)"
      using fl_hi [OF k] u by linarith
    moreover have "real (k + 1) * tps - tps * (1 / 2 ^ 21) \<le> mul64 (real (k + 1)) tps"
      using fl_lo [of "k + 1"] v by simp
    moreover have "real (k + 1) * tps = real k * tps + tps" by (simp add: algebra_simps)
    moreover have "tps * (1 / 2 ^ 21) + tps * (1 / 2 ^ 21) < tps"
      using tps_pos by simp
    ultimately show ?thesis unfolding tps_def by linarith
  qed
  show C: "mul64 (real k) (div64 d (real N)) < d" if "k < N" for k
  proof (cases "k = 0")
    case True
    then show ?thesis using d(1) by (simp add: mul64_def)
  next
    case False
    then have k: "0 < k" by simp
    have k1: "real k + 1 \<le> real N"
      using that by (metis Suc_leI of_nat_Suc of_nat_le_iff add.commute)
    have ke: "real k * eps \<le> 1 / 2 ^ 21" using keps [of k] that by simp
    have p: "real k * tps \<le> r * (real k + 1 / 2 ^ 21)"
    proof -
      have "r * (real k + real k * eps) \<le> r * (real k + 1 / 2 ^ 21)"
        using ke rpos by (intro mult_left_mono) simp_all
      with prod_hi [of k] show ?thesis by linarith
    qed
    have q: "real k * tps * eps \<le> r * (1 / 2 ^ 20)"
    proof -
      have "real k * tps \<le> real k * (2 * r)"
      proof -
        have "r * eps \<le> r * 1" using rpos eps_small by (intro mult_left_mono) simp_all
        with tps_hi have "tps \<le> 2 * r" by simp
        then show ?thesis by (intro mult_left_mono) simp_all
      qed
      then have "real k * tps * eps \<le> real k * (2 * r) * eps"
        using eps_pos by (intro mult_right_mono) simp_all
      also have "\<dots> = r * (2 * (real k * eps))" by (simp add: algebra_simps)
      also have "\<dots> \<le> r * (2 * (1 / 2 ^ 21))"
        using ke rpos by (intro mult_left_mono) simp_all
      finally show ?thesis by simp
    qed
    have "mul64 (real k) tps \<le> r * (real k + 1 / 2 ^ 21) + r * (1 / 2 ^ 20)"
      using fl_hi [OF k] p q by linarith
    also have "\<dots> = r * (real k + 1 / 2 ^ 21 + 1 / 2 ^ 20)" by (simp add: algebra_simps)
    also have "\<dots> < r * real N"
      using k1 rpos by (intro mult_strict_left_mono) simp_all
    finally show ?thesis by (simp add: rN tps_def)
  qed
  show "d - d / 2 ^ 52 \<le> mul64 (real N) (div64 d (real N))"
  proof -
    have Nk: "0 < N" using N(1) by simp
    have a: "d * (1 - eps) \<le> real N * tps"
      using prod_lo [of N] rN by (simp add: algebra_simps)
    have "d * (1 - eps) * (1 - eps) \<le> real N * tps * (1 - eps)"
      using a eps_small by (intro mult_right_mono) simp_all
    also have "\<dots> \<le> mul64 (real N) tps"
      using fl_lo [OF Nk] by (simp add: algebra_simps)
    finally have "d * ((1 - eps) * (1 - eps)) \<le> mul64 (real N) tps"
      by (simp add: mult.assoc)
    moreover have "d * (1 - 1 / 2 ^ 52) \<le> d * ((1 - eps) * (1 - eps))"
      using d(1) by (intro mult_left_mono) (simp_all add: eps_def)
    ultimately show ?thesis by (simp add: tps_def algebra_simps)
  qed
qed

subsection \<open>Coverage of the duration\<close>

lemma segmentation_length:
  "length (segmentation t d) = length (buildSegments (words_of t) d 0 [])"
  by (simp add: segmentation_def length_redistribute)

lemma segmentation_length_le: "length (segmentation t d) \<le> length (words_of t)"
  using buildSegments_length [of "words_of t" d 0 "[]"] by (simp add: segmentation_length)

lemma segmentation_start:
  "k < length (segmentation t d) \<Longrightarrow>
   startTime (segmentation t d ! k)
     = mul64 (real k) (div64 d (real (length (segmentation t d))))"
  by (simp add: segmentation_length) (simp add: segmentation_def redistribute_start)

lemma segmentation_end:
  "k < length (segmentation t d) \<Longrightarrow>
   endTime (segmentation t d ! k)
     = min (mul64 (real (k + 1)) (div64 d (real (length (segmentation t d))))) d"
  by (simp add: segmentation_length) (simp add: segmentation_def redistribute_end)

lemma segmentation_single:
  assumes "length (segmentation t d) = 1" and "isDouble d"
  shows "startTime (segmentation t d ! 0) = 0" and "endTime (segmentation t d ! 0) = d"
proof -
  have b: "binary64 d = d" using assms(2) by (simp add: isDouble_def)
  show "startTime (segmentation t d ! 0) = 0"
    using assms(1) by (simp add: segmentation_start mul64_def)
  show "endTime (segmentation t d ! 0) = d"
    using assms(1) by (simp add: segmentation_end mul64_def div64_def b)
qed

lemma segmentation_many:
  assumes "2 \<le> length (segmentation t d)"
  shows "5 / 2 < d"
  using assms buildSegments_second_push [of "words_of t" d] by (simp add: segmentation_length)

lemma segmentation_last_end:
  assumes "segmentation t d \<noteq> []"
  shows "endTime (last (segmentation t d))
           = min (mul64 (real (length (segmentation t d)))
                        (div64 d (real (length (segmentation t d))))) d"
proof -
  have "buildSegments (words_of t) d 0 [] \<noteq> []"
    using assms by (auto simp: segmentation_def redistribute_def)
  then show ?thesis
    by (simp add: segmentation_length) (simp add: segmentation_def redistribute_last_end)
qed

lemma segmentation_hd_start:
  assumes "segmentation t d \<noteq> []"
  shows "startTime (hd (segmentation t d)) = 0"
proof -
  have "buildSegments (words_of t) d 0 [] \<noteq> []"
    using assms by (auto simp: segmentation_def redistribute_def)
  then show ?thesis by (simp add: segmentation_def redistribute_hd_start)
qed

lemma segmentation_last_bounds:
  assumes ne: "segmentation t d \<noteq> []" and dbl: "isDouble d"
    and len: "length (words_of t) < 2 ^ 32"
  shows "d - d / 2 ^ 52 \<le> endTime (last (segmentation t d))"
    and "endTime (last (segmentation t d)) \<le> d"
proof -
  let ?N = "length (segmentation t d)"
  have pos: "0 < d" using segmentation_nonempty_positive(1) [OF ne] .
  have le: "endTime (last (segmentation t d)) = min (mul64 (real ?N) (div64 d (real ?N))) d"
    by (rule segmentation_last_end [OF ne])
  then show "endTime (last (segmentation t d)) \<le> d" by simp
  show "d - d / 2 ^ 52 \<le> endTime (last (segmentation t d))"
  proof (cases "2 \<le> ?N")
    case True
    have "?N < 2 ^ 32" using segmentation_length_le [of t d] len by linarith
    then have "d - d / 2 ^ 52 \<le> mul64 (real ?N) (div64 d (real ?N))"
      using uniform_partition(4) [OF segmentation_many [OF True] dbl True] by simp
    moreover have "d - d / 2 ^ 52 \<le> d" using pos by simp
    ultimately show ?thesis by (simp add: le)
  next
    case False
    moreover have "0 < ?N" using ne by simp
    ultimately have one: "?N = 1" by linarith
    then have "last (segmentation t d) = segmentation t d ! 0"
      using ne by (simp add: last_conv_nth)
    then have "endTime (last (segmentation t d)) = d"
      using segmentation_single(2) [OF one dbl] by simp
    then show ?thesis using pos by simp
  qed
qed

text \<open>
  Claim C2, amended: for every transcript with at least one character that is not white
  space and every finite duration above 0, the cue list is not empty, its first cue starts
  at 0, and its last cue ends at the smaller of the duration and \<open>N * (duration / N)\<close> as
  computed in binary64, \<open>N\<close> being the number of cues. That end is at most the duration,
  at least the duration times \<open>1 - 2\<^sup>-\<^sup>5\<^sup>2\<close>, and equal to the duration when there is one
  cue.
\<close>

theorem segmentation_spans_duration_rounded:
  assumes "\<exists>c \<in> set t. \<not> isWhiteSpace c" and "0 < d" and "isDouble d"
    and "length (words_of t) < 2 ^ 32"
  shows "segmentation t d \<noteq> []
         \<and> startTime (hd (segmentation t d)) = 0
         \<and> endTime (last (segmentation t d))
             = min (mul64 (real (length (segmentation t d)))
                          (div64 d (real (length (segmentation t d))))) d
         \<and> endTime (last (segmentation t d)) \<le> d
         \<and> d - d / 2 ^ 52 \<le> endTime (last (segmentation t d))
         \<and> (length (segmentation t d) = 1 \<longrightarrow> endTime (last (segmentation t d)) = d)"
proof -
  from assms(1) have "words_of t \<noteq> []" using words_of_not_Nil by blast
  then have "buildSegments (words_of t) d 0 [] \<noteq> []"
    using assms(2) by (rule buildSegments_first)
  then have ne: "segmentation t d \<noteq> []"
    using segmentation_length [of t d] by auto
  have one: "length (segmentation t d) = 1 \<longrightarrow> endTime (last (segmentation t d)) = d"
  proof
    assume l: "length (segmentation t d) = 1"
    then have "last (segmentation t d) = segmentation t d ! 0"
      using ne by (simp add: last_conv_nth)
    then show "endTime (last (segmentation t d)) = d"
      using segmentation_single(2) [OF l assms(3)] by simp
  qed
  from ne segmentation_hd_start [OF ne] segmentation_last_end [OF ne]
    segmentation_last_bounds [OF ne assms(3,4)] one
  show ?thesis by blast
qed

text \<open>
  Claim C10, amended: for a finite duration the cue list is a contiguous ordered partition
  of the interval from 0 to the end of its last cue. Each cue ends exactly where the next
  one starts, every cue starts before it ends, the starts increase strictly, a cue list
  that is not empty starts at 0, and its last end is at most the duration and at least the
  duration times \<open>1 - 2\<^sup>-\<^sup>5\<^sup>2\<close>.
\<close>

theorem segmentation_contiguous_rounded:
  assumes "isDouble d" and "length (words_of t) < 2 ^ 32"
  shows "(\<forall>k. Suc k < length (segmentation t d) \<longrightarrow>
            endTime (segmentation t d ! k) = startTime (segmentation t d ! Suc k))
       \<and> (\<forall>k < length (segmentation t d).
            startTime (segmentation t d ! k) < endTime (segmentation t d ! k))
       \<and> (\<forall>k. Suc k < length (segmentation t d) \<longrightarrow>
            startTime (segmentation t d ! k) < startTime (segmentation t d ! Suc k))
       \<and> (segmentation t d \<noteq> [] \<longrightarrow>
            startTime (hd (segmentation t d)) = 0
            \<and> endTime (last (segmentation t d)) \<le> d
            \<and> d - d / 2 ^ 52 \<le> endTime (last (segmentation t d)))"
proof (cases "segmentation t d = []")
  case True
  then show ?thesis by simp
next
  case ne: False
  let ?N = "length (segmentation t d)"
  let ?tps = "div64 d (real ?N)"
  have pos: "0 < d" using segmentation_nonempty_positive(1) [OF ne] .
  have ends: "startTime (hd (segmentation t d)) = 0
            \<and> endTime (last (segmentation t d)) \<le> d
            \<and> d - d / 2 ^ 52 \<le> endTime (last (segmentation t d))"
    using segmentation_hd_start [OF ne] segmentation_last_bounds [OF ne assms] by simp
  show ?thesis
  proof (cases "2 \<le> ?N")
    case True
    have N32: "?N < 2 ^ 32" using segmentation_length_le [of t d] assms(2) by linarith
    note up = uniform_partition [OF segmentation_many [OF True] assms(1) True N32]
    have adj: "endTime (segmentation t d ! k) = startTime (segmentation t d ! Suc k)"
      if "Suc k < ?N" for k
    proof -
      have "mul64 (real (Suc k)) ?tps \<le> d" using up(1) [of "Suc k"] that by simp
      then show ?thesis using that by (simp add: segmentation_start segmentation_end)
    qed
    have lt: "startTime (segmentation t d ! k) < endTime (segmentation t d ! k)"
      if "k < ?N" for k
      using up(2) [OF that] up(3) [OF that] that
      by (simp add: segmentation_start segmentation_end)
    have inc: "startTime (segmentation t d ! k) < startTime (segmentation t d ! Suc k)"
      if "Suc k < ?N" for k
    proof -
      from that have "k < ?N" by simp
      from up(2) [OF this] that show ?thesis by (simp add: segmentation_start)
    qed
    from adj lt inc ends show ?thesis by blast
  next
    case False
    moreover have "0 < ?N" using ne by simp
    ultimately have one: "?N = 1" by linarith
    have "startTime (segmentation t d ! k) < endTime (segmentation t d ! k)" if "k < ?N" for k
    proof -
      from that one have "k = 0" by simp
      then show ?thesis using segmentation_single [OF one assms(1)] pos by simp
    qed
    with one ends show ?thesis by simp
  qed
qed

lemma three_windows:
  assumes "length ws = 9" and "5 < d"
  shows "length (buildSegments ws d 0 []) = 3"
proof -
  have m0: "mul64 (real (0 div wordsPerSegment)) baseSegmentDuration = 0"
    by (simp add: mul64_def)
  have m1: "mul64 (real ((0 + wordsPerSegment) div wordsPerSegment)) baseSegmentDuration = 5 / 2"
    by (simp add: wordsPerSegment_def baseSegmentDuration_def eval64 Let_def)
  have m2: "mul64 (real ((0 + wordsPerSegment + wordsPerSegment) div wordsPerSegment))
              baseSegmentDuration = 5"
    by (simp add: wordsPerSegment_def baseSegmentDuration_def eval64 Let_def)
  have i0: "0 < length ws" and i1: "0 + wordsPerSegment < length ws"
    and i2: "0 + wordsPerSegment + wordsPerSegment < length ws"
    using assms(1) by (simp_all add: wordsPerSegment_def)
  have c0: "mul64 (real (0 div wordsPerSegment)) baseSegmentDuration < d"
    and c1: "mul64 (real ((0 + wordsPerSegment) div wordsPerSegment)) baseSegmentDuration < d"
    and c2: "mul64 (real ((0 + wordsPerSegment + wordsPerSegment) div wordsPerSegment))
               baseSegmentDuration < d"
    using assms(2) by (simp_all only: m0 m1 m2)
  from buildSegments_step [OF i0 c0, of "[]"] obtain x where
    x: "buildSegments ws d 0 [] = buildSegments ws d (0 + wordsPerSegment) ([] @ [x])"
    by blast
  from buildSegments_step [OF i1 c1, of "[] @ [x]"] obtain y where
    y: "buildSegments ws d (0 + wordsPerSegment) ([] @ [x])
      = buildSegments ws d (0 + wordsPerSegment + wordsPerSegment) (([] @ [x]) @ [y])"
    by blast
  from buildSegments_step [OF i2 c2, of "([] @ [x]) @ [y]"] obtain z where
    z: "buildSegments ws d (0 + wordsPerSegment + wordsPerSegment) (([] @ [x]) @ [y])
      = buildSegments ws d (0 + wordsPerSegment + wordsPerSegment + wordsPerSegment)
          ((([] @ [x]) @ [y]) @ [z])"
    by blast
  have "buildSegments ws d (0 + wordsPerSegment + wordsPerSegment + wordsPerSegment)
          ((([] @ [x]) @ [y]) @ [z]) = (([] @ [x]) @ [y]) @ [z]"
    by (rule buildSegments_stop) (simp add: assms wordsPerSegment_def)
  with x y z show ?thesis by simp
qed

lemma seven_point_two: "binary64 (36 / 5) = 8106479329266893 / 1125899906842624"
  by (simp add: eval64 Let_def)

lemma seven_point_three: "binary64 (73 / 10) = 8219069319951155 / 1125899906842624"
  by (simp add: eval64 Let_def)

lemma nine_letters:
  "words_of ''a b c d e f g h i'' = [''a'', ''b'', ''c'', ''d'', ''e'', ''f'', ''g'', ''h'', ''i'']"
  by (simp add: words_of_def trim_def isWhiteSpace_def)

lemma nine_words:
  "words_of ''the quick brown fox jumps over the lazy dog'' =
     [''the'', ''quick'', ''brown'', ''fox'', ''jumps'', ''over'', ''the'', ''lazy'', ''dog'']"
  by (simp add: words_of_def trim_def isWhiteSpace_def)

text \<open>
  Claim C2, as stated, says the last cue ends exactly at the duration. For nine words and
  the duration written \<^verbatim>\<open>7.2\<close> there are three cues, and three times the rounded third of
  the duration rounds to the binary64 value just below the duration.
\<close>

theorem last_end_misses_duration:
  "(\<exists>c \<in> set ''a b c d e f g h i''. \<not> isWhiteSpace c)
   \<and> 0 < binary64 (36 / 5)
   \<and> binary64 (36 / 5) = 8106479329266893 / 1125899906842624
   \<and> length (segmentation ''a b c d e f g h i'' (binary64 (36 / 5))) = 3
   \<and> endTime (last (segmentation ''a b c d e f g h i'' (binary64 (36 / 5))))
       = 2026619832316723 / 281474976710656
   \<and> endTime (last (segmentation ''a b c d e f g h i'' (binary64 (36 / 5))))
       \<noteq> binary64 (36 / 5)"
proof -
  let ?d = "8106479329266893 / 1125899906842624 :: real"
  have c: "\<exists>c \<in> set ''a b c d e f g h i''. \<not> isWhiteSpace c"
    by (rule bexI [of _ "CHR ''a''"]) (simp_all add: isWhiteSpace_def)
  have len: "length (segmentation ''a b c d e f g h i'' ?d) = 3"
    by (simp add: segmentation_length nine_letters three_windows)
  then have ne: "segmentation ''a b c d e f g h i'' ?d \<noteq> []" by auto
  have v: "min (mul64 3 (div64 ?d 3)) ?d = 2026619832316723 / 281474976710656"
    by (simp add: eval64 Let_def)
  have "endTime (last (segmentation ''a b c d e f g h i'' ?d))
          = 2026619832316723 / 281474976710656"
    using segmentation_last_end [OF ne] by (simp add: len v)
  with c len show ?thesis by (simp add: seven_point_two)
qed

text \<open>
  Claim C10, as stated, says the cues partition the interval from 0 to the duration. For
  nine words and the duration written \<^verbatim>\<open>7.3\<close> the last of the three cues ends below the
  duration.
\<close>

theorem partition_stops_short_of_duration:
  "binary64 (73 / 10) = 8219069319951155 / 1125899906842624
   \<and> length (segmentation ''the quick brown fox jumps over the lazy dog'' (binary64 (73 / 10))) = 3
   \<and> endTime (last (segmentation ''the quick brown fox jumps over the lazy dog''
                      (binary64 (73 / 10))))
       = 4109534659975577 / 562949953421312
   \<and> endTime (last (segmentation ''the quick brown fox jumps over the lazy dog''
                      (binary64 (73 / 10))))
       < binary64 (73 / 10)"
proof -
  let ?d = "8219069319951155 / 1125899906842624 :: real"
  let ?t = "''the quick brown fox jumps over the lazy dog''"
  have len: "length (segmentation ?t ?d) = 3"
    by (simp add: segmentation_length nine_words three_windows)
  then have ne: "segmentation ?t ?d \<noteq> []" by auto
  have v: "min (mul64 3 (div64 ?d 3)) ?d = 4109534659975577 / 562949953421312"
    by (simp add: eval64 Let_def)
  have "endTime (last (segmentation ?t ?d)) = 4109534659975577 / 562949953421312"
    using segmentation_last_end [OF ne] by (simp add: len v)
  with len show ?thesis by (simp add: seven_point_three)
qed

lemma isDouble_three: "isDouble 3"
  by (simp add: isDouble_def eval64 Let_def)

lemma isDouble_ten: "isDouble 10"
  by (simp add: isDouble_def eval64 Let_def)

lemma example_single_cue:
  "segmentation ''hello world'' 3 =
     [\<lparr>id_sub = ''subtitle-0'', startTime = 0, endTime = 3, text_sub = ''hello world''\<rparr>]"
proof -
  let ?W = "[''hello'', ''world'']"
  have w: "words_of ''hello world'' = ?W"
    by (simp add: words_of_def trim_def isWhiteSpace_def)
  have a1: "0 < length ?W" by simp
  have a2: "mul64 (real (0 div wordsPerSegment)) baseSegmentDuration = 0"
    by (simp add: mul64_def)
  have a3: "(0::real) < 3" by simp
  have a4: "slice_js ?W 0 (0 + wordsPerSegment) = ?W"
    by (simp add: slice_js_def wordsPerSegment_def)
  have a5: "min (add64 0
              (min (mul64 baseSegmentDuration
                     (max (binary64 0.8)
                        (min 1.5
                           (div64 (div64 (real (foldl (\<lambda>sum word. sum + length word) 0 ?W))
                                         (real (length ?W)))
                                  5))))
                   (sub64 3 0))) 3 = 5 / 2"
    by (simp add: baseSegmentDuration_def eval64 Let_def)
  have s1: "buildSegments ?W 3 0 [] =
              buildSegments ?W 3 4
                [\<lparr>id_sub = ''subtitle-0'', startTime = 0, endTime = 5 / 2,
                  text_sub = ''hello world''\<rparr>]"
    using buildSegments_iter [OF a1 a2 a3 a4 a5, of "[]"]
    by (simp add: wordsPerSegment_def toString_def digits.simps digitChar_def)
  have s2: "buildSegments ?W 3 4 acc = acc" for acc
    by (rule buildSegments_stop) simp
  have r: "redistribute 3 [a] = [a\<lparr>startTime := 0, endTime := 3\<rparr>]" for a
    by (simp add: redistribute_def enumerate_eq_zip upt_rec Let_def)
       (simp add: eval64 Let_def)
  show ?thesis by (simp add: segmentation_def w s1 s2 r)
qed

text \<open>Claim C2 at the transcript \<open>hello world\<close> and a duration of 3.\<close>

theorem segmentation_spans_duration_rounded_witness:
  "CHR ''h'' \<in> set ''hello world'' \<and> \<not> isWhiteSpace CHR ''h'' \<and> (0 :: real) < 3
   \<and> isDouble 3 \<and> length (words_of ''hello world'') < 2 ^ 32
   \<and> segmentation ''hello world'' 3 \<noteq> []
   \<and> startTime (hd (segmentation ''hello world'' 3)) = 0
   \<and> length (segmentation ''hello world'' 3) = 1
   \<and> endTime (last (segmentation ''hello world'' 3)) = 3"
proof -
  have h1: "\<exists>c \<in> set ''hello world''. \<not> isWhiteSpace c"
    by (rule bexI [of _ "CHR ''h''"]) (simp_all add: isWhiteSpace_def)
  have h2: "(0 :: real) < 3" by simp
  have h4: "length (words_of ''hello world'') < 2 ^ 32"
    by (simp add: words_of_def trim_def isWhiteSpace_def)
  have l: "length (segmentation ''hello world'' 3) = 1" by (simp add: example_single_cue)
  from segmentation_spans_duration_rounded [OF h1 h2 isDouble_three h4] l h4
  show ?thesis by (simp add: isWhiteSpace_def isDouble_three)
qed

text \<open>Claim C10 at the eight-word transcript and a duration of 10.\<close>

theorem segmentation_contiguous_rounded_witness:
  "isDouble 10
   \<and> length (words_of ''one two three four five six seven eight'') < 2 ^ 32
   \<and> Suc 0 < length (segmentation ''one two three four five six seven eight'' 10)
   \<and> endTime (segmentation ''one two three four five six seven eight'' 10 ! 0)
       = startTime (segmentation ''one two three four five six seven eight'' 10 ! Suc 0)
   \<and> startTime (segmentation ''one two three four five six seven eight'' 10 ! 0)
       < endTime (segmentation ''one two three four five six seven eight'' 10 ! 0)
   \<and> startTime (segmentation ''one two three four five six seven eight'' 10 ! 0)
       < startTime (segmentation ''one two three four five six seven eight'' 10 ! Suc 0)
   \<and> segmentation ''one two three four five six seven eight'' 10 \<noteq> []
   \<and> startTime (hd (segmentation ''one two three four five six seven eight'' 10)) = 0
   \<and> endTime (last (segmentation ''one two three four five six seven eight'' 10)) \<le> 10"
proof -
  have h1: "length (words_of ''one two three four five six seven eight'') < 2 ^ 32"
    by (simp add: example_words)
  have h2: "Suc 0 < length (segmentation ''one two three four five six seven eight'' 10)"
    and h3: "segmentation ''one two three four five six seven eight'' 10 \<noteq> []"
    and h4: "0 < length (segmentation ''one two three four five six seven eight'' 10)"
    by (simp_all add: example_cues)
  from segmentation_contiguous_rounded
         [OF isDouble_ten h1] h1 h2 h3 h4 isDouble_ten
  show ?thesis by blast
qed

subsection \<open>Active cue\<close>

lemma currentSub_None_iff:
  "currentSub t subs = None \<longleftrightarrow> (\<forall>c \<in> set subs. \<not> (startTime c \<le> t \<and> t \<le> endTime c))"
  by (auto simp: currentSub_def find_None_iff)

lemma currentSub_Some_iff:
  "currentSub t subs = Some c \<longleftrightarrow>
     (\<exists>i < length subs. subs ! i = c \<and> startTime c \<le> t \<and> t \<le> endTime c
        \<and> (\<forall>j < i. \<not> (startTime (subs ! j) \<le> t \<and> t \<le> endTime (subs ! j))))"
  by (auto simp: currentSub_def find_Some_iff)

lemma currentSub_in_set: "currentSub t subs = Some c \<Longrightarrow> c \<in> set subs"
  by (auto simp: currentSub_Some_iff)

lemma updateTime_id:
  assumes "list_all (\<lambda>s. id_sub s \<noteq> []) (subtitles st)"
  shows "currentSubtitleId (updateTime t st) = map_option id_sub (currentSub t (subtitles st))"
proof (cases "currentSub t (subtitles st)")
  case None
  then show ?thesis by (simp add: updateTime_def)
next
  case (Some c)
  then have "c \<in> set (subtitles st)" by (rule currentSub_in_set)
  with assms have "id_sub c \<noteq> []" by (simp add: list_all_iff)
  with Some show ?thesis by (simp add: updateTime_def)
qed

text \<open>
  Claim C4: for every cue list and every playback position, the active cue is the first
  cue in list order whose bounds include the position, both bounds inclusive, and there is
  none when no cue includes it. The listener stores the id of that cue; every id that
  segmentation assigns is a non-empty string. For two cues from 0 to 2 and from 2 to 4 and
  the position 2, the active cue is the first one.
\<close>

theorem active_cue_is_first_match:
  "(currentSub t subs = None \<longleftrightarrow>
      (\<forall>c \<in> set subs. \<not> (startTime c \<le> t \<and> t \<le> endTime c)))
   \<and> (currentSub t subs = Some c \<longleftrightarrow>
        (\<exists>i < length subs. subs ! i = c \<and> startTime c \<le> t \<and> t \<le> endTime c
           \<and> (\<forall>j < i. \<not> (startTime (subs ! j) \<le> t \<and> t \<le> endTime (subs ! j)))))
   \<and> (list_all (\<lambda>s. id_sub s \<noteq> []) (subtitles st) \<longrightarrow>
        currentSubtitleId (updateTime t st) = map_option id_sub (currentSub t (subtitles st)))
   \<and> list_all (\<lambda>s. id_sub s \<noteq> []) (segmentation transcript d)
   \<and> currentSub 2 [\<lparr>id_sub = a, startTime = 0, endTime = 2, text_sub = x\<rparr>,
                    \<lparr>id_sub = b, startTime = 2, endTime = 4, text_sub = y\<rparr>]
       = Some \<lparr>id_sub = a, startTime = 0, endTime = 2, text_sub = x\<rparr>"
proof -
  have "currentSub 2 [\<lparr>id_sub = a, startTime = 0, endTime = 2, text_sub = x\<rparr>,
                      \<lparr>id_sub = b, startTime = 2, endTime = 4, text_sub = y\<rparr>]
          = Some \<lparr>id_sub = a, startTime = 0, endTime = 2, text_sub = x\<rparr>"
    by (simp add: currentSub_def)
  with currentSub_None_iff [of t subs] currentSub_Some_iff [of t subs c] updateTime_id [of st t]
    segmentation_ids_nonempty [of transcript d]
  show ?thesis by blast
qed

text \<open>Claim C4 at two adjacent cues, at their common bound 2 and beyond both at 5.\<close>

theorem active_cue_is_first_match_witness:
  "list_all (\<lambda>s. id_sub s \<noteq> [])
     (subtitles (initialState\<lparr>subtitles :=
        [\<lparr>id_sub = ''subtitle-0'', startTime = 0, endTime = 2, text_sub = ''one''\<rparr>,
         \<lparr>id_sub = ''subtitle-1'', startTime = 2, endTime = 4, text_sub = ''two''\<rparr>]\<rparr>))
   \<and> currentSubtitleId (updateTime 2 (initialState\<lparr>subtitles :=
        [\<lparr>id_sub = ''subtitle-0'', startTime = 0, endTime = 2, text_sub = ''one''\<rparr>,
         \<lparr>id_sub = ''subtitle-1'', startTime = 2, endTime = 4, text_sub = ''two''\<rparr>]\<rparr>))
       = Some ''subtitle-0''
   \<and> currentSubtitleId (updateTime 5 (initialState\<lparr>subtitles :=
        [\<lparr>id_sub = ''subtitle-0'', startTime = 0, endTime = 2, text_sub = ''one''\<rparr>,
         \<lparr>id_sub = ''subtitle-1'', startTime = 2, endTime = 4, text_sub = ''two''\<rparr>]\<rparr>))
       = None"
proof -
  let ?st = "initialState\<lparr>subtitles :=
        [\<lparr>id_sub = ''subtitle-0'', startTime = 0, endTime = 2, text_sub = ''one''\<rparr>,
         \<lparr>id_sub = ''subtitle-1'', startTime = 2, endTime = 4, text_sub = ''two''\<rparr>]\<rparr>"
  have h: "list_all (\<lambda>s. id_sub s \<noteq> []) (subtitles ?st)" by simp
  have two: "currentSubtitleId (updateTime 2 ?st)
               = map_option id_sub (currentSub 2 (subtitles ?st))"
    using active_cue_is_first_match [of 2 "subtitles ?st" "hd (subtitles ?st)" ?st] h by blast
  have five: "currentSubtitleId (updateTime 5 ?st)
                = map_option id_sub (currentSub 5 (subtitles ?st))"
    using active_cue_is_first_match [of 5 "subtitles ?st" "hd (subtitles ?st)" ?st] h by blast
  from h two five show ?thesis by (simp add: currentSub_def)
qed

subsection \<open>Edits\<close>

text \<open>
  Claim C9: \<^verbatim>\<open>updateSubtitleText\<close> keeps the length and order of the cue list; a cue
  whose id matches gets the new text verbatim and keeps its id, start and end; every other
  cue is unchanged; when no cue has the id the state is unchanged; no other part of the
  state changes.
\<close>

theorem updateSubtitleText_frame:
  "length (subtitles (updateSubtitleText i x st)) = length (subtitles st)
   \<and> (\<forall>k < length (subtitles st).
         subtitles (updateSubtitleText i x st) ! k =
           (if id_sub (subtitles st ! k) = i then (subtitles st ! k)\<lparr>text_sub := x\<rparr>
            else subtitles st ! k))
   \<and> (\<forall>k < length (subtitles st).
         id_sub (subtitles (updateSubtitleText i x st) ! k) = id_sub (subtitles st ! k)
         \<and> startTime (subtitles (updateSubtitleText i x st) ! k) = startTime (subtitles st ! k)
         \<and> endTime (subtitles (updateSubtitleText i x st) ! k) = endTime (subtitles st ! k))
   \<and> (i \<notin> id_sub ` set (subtitles st) \<longrightarrow> updateSubtitleText i x st = st)
   \<and> updateSubtitleText i x st = st\<lparr>subtitles := subtitles (updateSubtitleText i x st)\<rparr>"
proof -
  have "i \<notin> id_sub ` set (subtitles st) \<Longrightarrow>
          map (\<lambda>sub. if id_sub sub = i then sub\<lparr>text_sub := x\<rparr> else sub) (subtitles st)
            = subtitles st"
    by (intro map_idI) auto
  then show ?thesis by (auto simp: updateSubtitleText_def)
qed

text \<open>Claim C9 at a list of two cues, for an id that occurs and one that does not.\<close>

theorem updateSubtitleText_frame_witness:
  "subtitles (updateSubtitleText ''subtitle-1'' ''edited'' (initialState\<lparr>subtitles :=
       [\<lparr>id_sub = ''subtitle-0'', startTime = 0, endTime = 5, text_sub = ''a''\<rparr>,
        \<lparr>id_sub = ''subtitle-1'', startTime = 5, endTime = 10, text_sub = ''b''\<rparr>]\<rparr>))
     = [\<lparr>id_sub = ''subtitle-0'', startTime = 0, endTime = 5, text_sub = ''a''\<rparr>,
        \<lparr>id_sub = ''subtitle-1'', startTime = 5, endTime = 10, text_sub = ''edited''\<rparr>]
   \<and> ''subtitle-7'' \<notin> id_sub ` set (subtitles (initialState\<lparr>subtitles :=
       [\<lparr>id_sub = ''subtitle-0'', startTime = 0, endTime = 5, text_sub = ''a''\<rparr>,
        \<lparr>id_sub = ''subtitle-1'', startTime = 5, endTime = 10, text_sub = ''b''\<rparr>]\<rparr>))
   \<and> updateSubtitleText ''subtitle-7'' ''edited'' (initialState\<lparr>subtitles :=
       [\<lparr>id_sub = ''subtitle-0'', startTime = 0, endTime = 5, text_sub = ''a''\<rparr>,
        \<lparr>id_sub = ''subtitle-1'', startTime = 5, endTime = 10, text_sub = ''b''\<rparr>]\<rparr>)
     = initialState\<lparr>subtitles :=
       [\<lparr>id_sub = ''subtitle-0'', startTime = 0, endTime = 5, text_sub = ''a''\<rparr>,
        \<lparr>id_sub = ''subtitle-1'', startTime = 5, endTime = 10, text_sub = ''b''\<rparr>]\<rparr>"
proof -
  let ?st = "initialState\<lparr>subtitles :=
       [\<lparr>id_sub = ''subtitle-0'', startTime = 0, endTime = 5, text_sub = ''a''\<rparr>,
        \<lparr>id_sub = ''subtitle-1'', startTime = 5, endTime = 10, text_sub = ''b''\<rparr>]\<rparr>"
  have h: "''subtitle-7'' \<notin> id_sub ` set (subtitles ?st)" by simp
  have same: "updateSubtitleText ''subtitle-7'' ''edited'' ?st = ?st"
    using updateSubtitleText_frame [of "''subtitle-7''" "''edited''" ?st] h by blast
  have len: "length (subtitles (updateSubtitleText ''subtitle-1'' ''edited'' ?st)) = 2"
    and k0: "subtitles (updateSubtitleText ''subtitle-1'' ''edited'' ?st) ! 0
               = \<lparr>id_sub = ''subtitle-0'', startTime = 0, endTime = 5, text_sub = ''a''\<rparr>"
    and k1: "subtitles (updateSubtitleText ''subtitle-1'' ''edited'' ?st) ! 1
               = \<lparr>id_sub = ''subtitle-1'', startTime = 5, endTime = 10, text_sub = ''edited''\<rparr>"
    using updateSubtitleText_frame [of "''subtitle-1''" "''edited''" ?st] by simp_all
  have "subtitles (updateSubtitleText ''subtitle-1'' ''edited'' ?st)
     = [\<lparr>id_sub = ''subtitle-0'', startTime = 0, endTime = 5, text_sub = ''a''\<rparr>,
        \<lparr>id_sub = ''subtitle-1'', startTime = 5, endTime = 10, text_sub = ''edited''\<rparr>]"
    using len k0 k1 by (intro nth_equalityI) (auto simp: less_Suc_eq numeral_2_eq_2)
  with h same show ?thesis by simp
qed

subsection \<open>Quick timing buttons\<close>

lemma find_Some_in_set: "find P xs = Some x \<Longrightarrow> x \<in> set xs"
  by (induction xs) (auto split: if_splits)

lemma editedCue_in_set:
  assumes "editedCue st = Some cue"
  shows "cue \<in> set (subtitles st)"
proof (cases "selectedSubtitle st")
  case None
  with assms show ?thesis by (simp add: editedCue_def)
next
  case (Some sel)
  with assms have "find (\<lambda>s. id_sub s = sel) (subtitles st) = Some cue"
    by (simp add: editedCue_def split: if_splits)
  then show ?thesis by (rule find_Some_in_set)
qed

lemma updateSubtitleTiming_cue:
  assumes "c \<in> set (subtitles (updateSubtitleTiming i s e st))" and "id_sub c = i"
  shows "startTime c = s \<and> endTime c = e"
proof -
  from assms(1) obtain sub where sub: "sub \<in> set (subtitles st)"
      "c = (if id_sub sub = i then sub\<lparr>startTime := s, endTime := e\<rparr> else sub)"
    by (auto simp: updateSubtitleTiming_def)
  show ?thesis
  proof (cases "id_sub sub = i")
    case True
    with sub(2) show ?thesis by simp
  next
    case False
    with sub(2) assms(2) show ?thesis by simp
  qed
qed

lemma updateSubtitleTiming_has_cue:
  assumes "cue \<in> set (subtitles st)"
  shows "\<exists>c \<in> set (subtitles (updateSubtitleTiming (id_sub cue) s e st)). id_sub c = id_sub cue"
proof -
  have "cue\<lparr>startTime := s, endTime := e\<rparr> \<in>
          (\<lambda>sub. if id_sub sub = id_sub cue then sub\<lparr>startTime := s, endTime := e\<rparr> else sub)
            ` set (subtitles st)"
    using assms by (rule rev_image_eqI) simp
  then have "cue\<lparr>startTime := s, endTime := e\<rparr>
               \<in> set (subtitles (updateSubtitleTiming (id_sub cue) s e st))"
    by (simp add: updateSubtitleTiming_def)
  moreover have "id_sub (cue\<lparr>startTime := s, endTime := e\<rparr>) = id_sub cue" by simp
  ultimately show ?thesis by (rule bexI [rotated])
qed

text \<open>
  Claim C6, amended: for the cue under edit, the button \<open>End -0.5s\<close> sets the end to the
  larger of start + 0.1 and end - 0.5, so the new end is never below start + 0.1, and it is
  exactly start + 0.1 when that is the larger; the button \<open>End +0.5s\<close> sets the end to the
  smaller of the duration and end + 0.5, so the new end is never above the duration. The
  start is kept. Sums and differences are the program's, in binary64.
\<close>

theorem nudge_end_stays_clamped:
  assumes "editedCue st = Some cue"
  shows "(\<exists>c \<in> set (subtitles (nudgeEndMinus st)). id_sub c = id_sub cue)
         \<and> (\<forall>c \<in> set (subtitles (nudgeEndMinus st)). id_sub c = id_sub cue \<longrightarrow>
               startTime c = startTime cue
               \<and> endTime c = max (add64 (startTime cue) (binary64 0.1))
                                   (sub64 (endTime cue) 0.5)
               \<and> \<not> endTime c < add64 (startTime c) (binary64 0.1))
         \<and> (\<exists>c \<in> set (subtitles (nudgeEndPlus st)). id_sub c = id_sub cue)
         \<and> (\<forall>c \<in> set (subtitles (nudgeEndPlus st)). id_sub c = id_sub cue \<longrightarrow>
               startTime c = startTime cue
               \<and> endTime c = min (duration st) (add64 (endTime cue) 0.5)
               \<and> \<not> endTime c > duration st)"
proof -
  from assms have mem: "cue \<in> set (subtitles st)" by (rule editedCue_in_set)
  have minus: "nudgeEndMinus st =
      updateSubtitleTiming (id_sub cue) (startTime cue)
        (max (add64 (startTime cue) (binary64 0.1)) (sub64 (endTime cue) 0.5)) st"
    using assms by (simp add: nudgeEndMinus_def)
  have plus: "nudgeEndPlus st =
      updateSubtitleTiming (id_sub cue) (startTime cue)
        (min (duration st) (add64 (endTime cue) 0.5)) st"
    using assms by (simp add: nudgeEndPlus_def)
  have a: "\<exists>c \<in> set (subtitles (nudgeEndMinus st)). id_sub c = id_sub cue"
    unfolding minus using mem by (rule updateSubtitleTiming_has_cue)
  have b: "\<exists>c \<in> set (subtitles (nudgeEndPlus st)). id_sub c = id_sub cue"
    unfolding plus using mem by (rule updateSubtitleTiming_has_cue)
  have c: "\<forall>c \<in> set (subtitles (nudgeEndMinus st)). id_sub c = id_sub cue \<longrightarrow>
               startTime c = startTime cue
               \<and> endTime c = max (add64 (startTime cue) (binary64 0.1))
                                   (sub64 (endTime cue) 0.5)
               \<and> \<not> endTime c < add64 (startTime c) (binary64 0.1)"
    unfolding minus using updateSubtitleTiming_cue by fastforce
  have d: "\<forall>c \<in> set (subtitles (nudgeEndPlus st)). id_sub c = id_sub cue \<longrightarrow>
               startTime c = startTime cue
               \<and> endTime c = min (duration st) (add64 (endTime cue) 0.5)
               \<and> \<not> endTime c > duration st"
    unfolding plus using updateSubtitleTiming_cue by fastforce
  from a b c d show ?thesis by blast
qed

text \<open>
  Claim C6, as stated, says the new end is never at or below start + 0.1. A cue from 0 to
  0.5 is nudged to end at 0.1, which is start + 0.1.
\<close>

theorem nudge_end_reaches_bound:
  "startTime (hd (subtitles (initialState\<lparr>duration := 10, selectedSubtitle := Some ''subtitle-0'',
       subtitles := [\<lparr>id_sub = ''subtitle-0'', startTime = 0, endTime = 1 / 2,
                      text_sub = ''hi''\<rparr>]\<rparr>)))
     < endTime (hd (subtitles (initialState\<lparr>duration := 10, selectedSubtitle := Some ''subtitle-0'',
       subtitles := [\<lparr>id_sub = ''subtitle-0'', startTime = 0, endTime = 1 / 2,
                      text_sub = ''hi''\<rparr>]\<rparr>)))
   \<and> subtitles (nudgeEndMinus (initialState\<lparr>duration := 10,
       selectedSubtitle := Some ''subtitle-0'',
       subtitles := [\<lparr>id_sub = ''subtitle-0'', startTime = 0, endTime = 1 / 2,
                      text_sub = ''hi''\<rparr>]\<rparr>))
       = [\<lparr>id_sub = ''subtitle-0'', startTime = 0, endTime = binary64 (1 / 10),
           text_sub = ''hi''\<rparr>]
   \<and> endTime \<lparr>id_sub = ''subtitle-0'', startTime = 0, endTime = binary64 (1 / 10),
                text_sub = ''hi''\<rparr>
       \<le> add64 (startTime \<lparr>id_sub = ''subtitle-0'', startTime = 0,
                                  endTime = binary64 (1 / 10), text_sub = ''hi''\<rparr>)
                 (binary64 (1 / 10))"
proof -
  have a: "binary64 (1 / 10) = 3602879701896397 / 36028797018963968"
    by (simp add: eval64 Let_def)
  have b: "add64 0 (3602879701896397 / 36028797018963968) = 3602879701896397 / 36028797018963968"
    by (simp add: eval64 Let_def)
  have c: "sub64 (1 / 2) (1 / 2) = 0" by (simp add: sub64_def)
  show ?thesis
    by (simp add: nudgeEndMinus_def editedCue_def updateSubtitleTiming_def a b c)
qed

text \<open>Claim C6 at the second of two cues, from 5 to 10, with a duration of 10.\<close>

theorem nudge_end_stays_clamped_witness:
  "editedCue (initialState\<lparr>duration := 10, selectedSubtitle := Some ''subtitle-1'',
       subtitles := [\<lparr>id_sub = ''subtitle-0'', startTime = 0, endTime = 5, text_sub = ''a''\<rparr>,
                     \<lparr>id_sub = ''subtitle-1'', startTime = 5, endTime = 10, text_sub = ''b''\<rparr>]\<rparr>)
     = Some \<lparr>id_sub = ''subtitle-1'', startTime = 5, endTime = 10, text_sub = ''b''\<rparr>
   \<and> subtitles (nudgeEndMinus (initialState\<lparr>duration := 10,
       selectedSubtitle := Some ''subtitle-1'',
       subtitles := [\<lparr>id_sub = ''subtitle-0'', startTime = 0, endTime = 5, text_sub = ''a''\<rparr>,
                     \<lparr>id_sub = ''subtitle-1'', startTime = 5, endTime = 10, text_sub = ''b''\<rparr>]\<rparr>))
       = [\<lparr>id_sub = ''subtitle-0'', startTime = 0, endTime = 5, text_sub = ''a''\<rparr>,
          \<lparr>id_sub = ''subtitle-1'', startTime = 5, endTime = 19 / 2, text_sub = ''b''\<rparr>]
   \<and> subtitles (nudgeEndPlus (initialState\<lparr>duration := 10,
       selectedSubtitle := Some ''subtitle-1'',
       subtitles := [\<lparr>id_sub = ''subtitle-0'', startTime = 0, endTime = 5, text_sub = ''a''\<rparr>,
                     \<lparr>id_sub = ''subtitle-1'', startTime = 5, endTime = 10, text_sub = ''b''\<rparr>]\<rparr>))
       = [\<lparr>id_sub = ''subtitle-0'', startTime = 0, endTime = 5, text_sub = ''a''\<rparr>,
          \<lparr>id_sub = ''subtitle-1'', startTime = 5, endTime = 10, text_sub = ''b''\<rparr>]"
proof -
  let ?st = "initialState\<lparr>duration := 10, selectedSubtitle := Some ''subtitle-1'',
       subtitles := [\<lparr>id_sub = ''subtitle-0'', startTime = 0, endTime = 5, text_sub = ''a''\<rparr>,
                     \<lparr>id_sub = ''subtitle-1'', startTime = 5, endTime = 10, text_sub = ''b''\<rparr>]\<rparr>"
  let ?cue = "\<lparr>id_sub = ''subtitle-1'', startTime = 5, endTime = 10, text_sub = ''b''\<rparr>"
  have h: "editedCue ?st = Some ?cue" by (simp add: editedCue_def)
  note clamp = nudge_end_stays_clamped [OF h]
  have v: "max (add64 5 (binary64 (1 / 10))) (sub64 10 (1 / 2)) = 19 / 2"
    "min 10 (add64 10 (1 / 2)) = 10"
    by (simp_all add: eval64 Let_def)
  have m: "subtitles (nudgeEndMinus ?st)
       = [\<lparr>id_sub = ''subtitle-0'', startTime = 0, endTime = 5, text_sub = ''a''\<rparr>,
          \<lparr>id_sub = ''subtitle-1'', startTime = 5, endTime = 19 / 2, text_sub = ''b''\<rparr>]"
    by (simp add: nudgeEndMinus_def editedCue_def updateSubtitleTiming_def v)
  have p: "subtitles (nudgeEndPlus ?st)
       = [\<lparr>id_sub = ''subtitle-0'', startTime = 0, endTime = 5, text_sub = ''a''\<rparr>,
          \<lparr>id_sub = ''subtitle-1'', startTime = 5, endTime = 10, text_sub = ''b''\<rparr>]"
    by (simp add: nudgeEndPlus_def editedCue_def updateSubtitleTiming_def v)
  from h m p clamp show ?thesis by blast
qed

subsection \<open>Failed transcription\<close>

lemma transcribeAudio_read_failure:
  "subtitles (transcribeAudio (Inl err) provider st) = subtitles st"
  by (simp add: transcribeAudio_def Let_def)

text \<open>
  Claim C7: when the provider call rejects, the cue list after \<^verbatim>\<open>transcribeAudio\<close> is
  the cue list before it. Past the first guard the run also ends with the progress reset,
  the transcribing flag cleared and one alert added.
\<close>

theorem transcription_failure_keeps_cues:
  assumes "readResult = Inr audio" and "provider audio = Inl err"
  shows "subtitles (transcribeAudio readResult provider st) = subtitles st
         \<and> (audioFile st \<noteq> None \<and> user st \<noteq> None \<longrightarrow>
              isTranscribing (transcribeAudio readResult provider st) = False
              \<and> transcriptionProgress (transcribeAudio readResult provider st) = 0
              \<and> alerts (transcribeAudio readResult provider st)
                  = alerts st @ [''Transcription failed. Please try again.''])"
  using assms by (simp add: transcribeAudio_def Let_def)

text \<open>Claim C7 at a state holding one earlier cue and a provider that rejects.\<close>

theorem transcription_failure_keeps_cues_witness:
  "subtitles (transcribeAudio (Inr ''QUJD'') (\<lambda>audio. Inl ''quota exceeded'')
       (initialState\<lparr>audioFile := Some ''talk.mp3'', user := Some ''ann'', duration := 10,
          subtitles := [\<lparr>id_sub = ''subtitle-0'', startTime = 0, endTime = 10,
                         text_sub = ''kept''\<rparr>]\<rparr>))
     = [\<lparr>id_sub = ''subtitle-0'', startTime = 0, endTime = 10, text_sub = ''kept''\<rparr>]
   \<and> alerts (transcribeAudio (Inr ''QUJD'') (\<lambda>audio. Inl ''quota exceeded'')
       (initialState\<lparr>audioFile := Some ''talk.mp3'', user := Some ''ann'', duration := 10,
          subtitles := [\<lparr>id_sub = ''subtitle-0'', startTime = 0, endTime = 10,
                         text_sub = ''kept''\<rparr>]\<rparr>))
     = [''Transcription failed. Please try again.'']"
proof -
  let ?st = "initialState\<lparr>audioFile := Some ''talk.mp3'', user := Some ''ann'', duration := 10,
          subtitles := [\<lparr>id_sub = ''subtitle-0'', startTime = 0, endTime = 10,
                         text_sub = ''kept''\<rparr>]\<rparr>"
  have h1: "(Inr ''QUJD'' :: string + string) = Inr ''QUJD''" by (rule refl)
  have h2: "(\<lambda>audio :: string. (Inl ''quota exceeded'' :: string + string)) ''QUJD''
              = Inl ''quota exceeded''" by simp
  from transcription_failure_keeps_cues [of "Inr ''QUJD''" "''QUJD''"
         "\<lambda>audio. Inl ''quota exceeded''" "''quota exceeded''" ?st, OF h1 h2]
  show ?thesis by (simp add: initialState_def)
qed

subsection \<open>Tokens\<close>

text \<open>
  Claim C8, as stated, says the transcript is split on white space. A tab is white space,
  yet the transcript \<open>a\<close>, tab, \<open>b\<close> is one word for the code and two for the
  specification's tokenizer.
\<close>

theorem tab_does_not_separate_words:
  "words_of [CHR ''a'', CHR 0x09, CHR ''b''] = [[CHR ''a'', CHR 0x09, CHR ''b'']]
   \<and> spec_tokenize [CHR ''a'', CHR 0x09, CHR ''b''] = [''a'', ''b'']"
  by (simp add: words_of_def trim_def spec_tokenize_def isWhiteSpace_def)

text \<open>
  Claim C8, amended: the transcript is cut at every space character and nowhere else, and
  the pieces that are empty or all white space are discarded. For every transcript that is
  empty or all white space there are no words and the cue list is empty; a run of
  \<^verbatim>\<open>transcribeAudio\<close> on such a transcript stores the empty cue list and alerts nothing.
\<close>

theorem words_split_at_spaces:
  "join_js CHR '' '' (split_js CHR '' '' t) = t
   \<and> (\<forall>p \<in> set (split_js CHR '' '' t). CHR '' '' \<notin> set p)
   \<and> words_of t = filter (\<lambda>w. \<not> list_all isWhiteSpace w) (split_js CHR '' '' t)
   \<and> (list_all isWhiteSpace t \<longrightarrow>
        words_of t = [] \<and> segmentation t d = []
        \<and> (audioFile st \<noteq> None \<and> user st \<noteq> None \<and> provider audio = Inr t \<longrightarrow>
             subtitles (transcribeAudio (Inr audio) provider st) = []
             \<and> alerts (transcribeAudio (Inr audio) provider st) = alerts st))"
proof -
  have a: "\<forall>p \<in> set (split_js CHR '' '' t). CHR '' '' \<notin> set p"
    using split_js_no_sep by blast
  have b: "list_all isWhiteSpace t \<longrightarrow>
        words_of t = [] \<and> segmentation t d = []
        \<and> (audioFile st \<noteq> None \<and> user st \<noteq> None \<and> provider audio = Inr t \<longrightarrow>
             subtitles (transcribeAudio (Inr audio) provider st) = []
             \<and> alerts (transcribeAudio (Inr audio) provider st) = alerts st)"
  proof
    assume "list_all isWhiteSpace t"
    then have w: "words_of t = []" by (rule words_of_whitespace)
    then have s: "segmentation t (duration st) = []" "segmentation t d = []"
      by (simp_all add: segmentation_no_words)
    have "audioFile st \<noteq> None \<and> user st \<noteq> None \<and> provider audio = Inr t \<longrightarrow>
             subtitles (transcribeAudio (Inr audio) provider st) = []
             \<and> alerts (transcribeAudio (Inr audio) provider st) = alerts st"
      using s(1) by (simp add: transcribeAudio_def Let_def)
    with w s(2) show "words_of t = [] \<and> segmentation t d = []
        \<and> (audioFile st \<noteq> None \<and> user st \<noteq> None \<and> provider audio = Inr t \<longrightarrow>
             subtitles (transcribeAudio (Inr audio) provider st) = []
             \<and> alerts (transcribeAudio (Inr audio) provider st) = alerts st)"
      by blast
  qed
  from a b join_split_js [of "CHR '' ''" t] words_of_alt [of t] show ?thesis by blast
qed

text \<open>Claim C8 at the transcript space, tab, space.\<close>

theorem words_split_at_spaces_witness:
  "list_all isWhiteSpace [CHR '' '', CHR 0x09, CHR '' '']
   \<and> words_of [CHR '' '', CHR 0x09, CHR '' ''] = []
   \<and> segmentation [CHR '' '', CHR 0x09, CHR '' ''] 10 = []
   \<and> subtitles (transcribeAudio (Inr ''QUJD'') (\<lambda>audio. Inr [CHR '' '', CHR 0x09, CHR '' ''])
        (initialState\<lparr>audioFile := Some ''talk.mp3'', user := Some ''ann'', duration := 10,
           subtitles := [\<lparr>id_sub = ''subtitle-0'', startTime = 0, endTime = 10,
                          text_sub = ''old''\<rparr>]\<rparr>)) = []
   \<and> alerts (transcribeAudio (Inr ''QUJD'') (\<lambda>audio. Inr [CHR '' '', CHR 0x09, CHR '' ''])
        (initialState\<lparr>audioFile := Some ''talk.mp3'', user := Some ''ann'', duration := 10,
           subtitles := [\<lparr>id_sub = ''subtitle-0'', startTime = 0, endTime = 10,
                          text_sub = ''old''\<rparr>]\<rparr>)) = []"
proof -
  let ?t = "[CHR '' '', CHR 0x09, CHR '' '']"
  let ?st = "initialState\<lparr>audioFile := Some ''talk.mp3'', user := Some ''ann'', duration := 10,
           subtitles := [\<lparr>id_sub = ''subtitle-0'', startTime = 0, endTime = 10,
                          text_sub = ''old''\<rparr>]\<rparr>"
  have h1: "list_all isWhiteSpace ?t" by (simp add: isWhiteSpace_def)
  have h2: "audioFile ?st \<noteq> None \<and> user ?st \<noteq> None
            \<and> (\<lambda>audio :: string. (Inr ?t :: string + string)) ''QUJD'' = Inr ?t" by simp
  have h3: "alerts ?st = []" by (simp add: initialState_def)
  from words_split_at_spaces [of ?t 10 ?st "\<lambda>audio. Inr ?t" "''QUJD''"] h1 h2 h3
  show ?thesis by simp
qed

subsection \<open>Decimal digits\<close>

lemma digitChar_digit:
  assumes "d < 10"
  shows "isDecimalDigit (digitChar d)" and "digitValue (digitChar d) = d"
proof -
  from assms consider "d = 0" | "d = 1" | "d = 2" | "d = 3" | "d = 4" | "d = 5" | "d = 6"
    | "d = 7" | "d = 8" | "d = 9"
    by atomize_elim arith
  then have "isDecimalDigit (digitChar d) \<and> digitValue (digitChar d) = d"
    by cases (simp_all add: digitChar_def isDecimalDigit_def digitValue_def)
  then show "isDecimalDigit (digitChar d)" and "digitValue (digitChar d) = d" by simp_all
qed

lemma mathInt_snoc: "mathInt R (z @ [c]) = mathInt R z * R + digitValue c"
  by (simp add: mathInt_def)

lemma mathInt_leading_zeros: "mathInt R (replicate m CHR ''0'' @ z) = mathInt R z"
proof -
  have "foldl (\<lambda>acc c. acc * R + digitValue c) 0 (replicate m CHR ''0'') = 0"
    by (induction m) (simp_all add: digitValue_def)
  then show ?thesis by (simp add: mathInt_def)
qed

lemma digits_all_decimal: "list_all isDecimalDigit (digits n)"
proof (induction n rule: digits.induct)
  case (1 n)
  show ?case
  proof (cases "n < 10")
    case True
    then show ?thesis by (subst digits.simps) (simp add: digitChar_digit)
  next
    case False
    with 1 show ?thesis by (subst digits.simps) (simp add: digitChar_digit)
  qed
qed

lemma mathInt_digits: "mathInt 10 (digits n) = n"
proof (induction n rule: digits.induct)
  case (1 n)
  show ?case
  proof (cases "n < 10")
    case True
    then show ?thesis by (subst digits.simps) (simp add: mathInt_def digitChar_digit)
  next
    case False
    with 1 show ?thesis by (subst digits.simps) (simp add: mathInt_snoc digitChar_digit)
  qed
qed

lemma length_digits_ge: "1 \<le> length (digits n)"
  by (subst digits.simps) simp

lemma length_digits_le: "n < 10 ^ Suc k \<Longrightarrow> length (digits n) \<le> Suc k"
proof (induction k arbitrary: n)
  case 0
  then show ?case by (subst digits.simps) simp
next
  case (Suc k)
  show ?case
  proof (cases "n < 10")
    case True
    then show ?thesis by (subst digits.simps) simp
  next
    case False
    from Suc.prems have "n div 10 < 10 ^ Suc k" by (simp add: less_mult_imp_div_less)
    then have "length (digits (n div 10)) \<le> Suc k" by (rule Suc.IH)
    with False show ?thesis by (subst digits.simps) simp
  qed
qed

lemma padStart_digits:
  shows "list_all isDecimalDigit (padStart k CHR ''0'' (digits n))"
    and "mathInt 10 (padStart k CHR ''0'' (digits n)) = n"
    and "k \<le> length (padStart k CHR ''0'' (digits n))"
    and "n < 10 ^ k \<Longrightarrow> 0 < k \<Longrightarrow> length (padStart k CHR ''0'' (digits n)) = k"
proof -
  have zero: "isDecimalDigit CHR ''0''" by (simp add: isDecimalDigit_def)
  show "list_all isDecimalDigit (padStart k CHR ''0'' (digits n))"
    using digits_all_decimal [of n] zero by (auto simp: padStart_def list_all_iff)
  show "mathInt 10 (padStart k CHR ''0'' (digits n)) = n"
    by (simp add: padStart_def mathInt_leading_zeros mathInt_digits)
  show "k \<le> length (padStart k CHR ''0'' (digits n))"
    by (simp add: padStart_def)
  show "length (padStart k CHR ''0'' (digits n)) = k" if "n < 10 ^ k" and "0 < k"
  proof -
    from that obtain j where j: "k = Suc j" by (cases k) simp_all
    with that(1) have "length (digits n) \<le> k" using length_digits_le [of n j] by simp
    then show ?thesis by (simp add: padStart_def)
  qed
qed

subsection \<open>Parsing decimal fields\<close>

lemma decimal_not_special:
  assumes "isDecimalDigit c"
  shows "\<not> isWhiteSpace c" and "c \<noteq> CHR ''-''" and "c \<noteq> CHR ''+''" and "c \<noteq> CHR ''x''"
    and "c \<noteq> CHR ''X''" and "c \<noteq> CHR '':''" and "c \<noteq> CHR ''.''" and "isRadixDigit 10 c"
  using assms by (auto simp: isDecimalDigit_def isWhiteSpace_def isRadixDigit_def digitValue_def)

lemma parseInt_decimal:
  assumes "list_all isDecimalDigit z" and "2 \<le> length z"
  shows "parseInt z = Some (binary64 (real (mathInt 10 z)))"
proof -
  from assms(2) obtain a b r where z: "z = a # b # r"
    by (cases z; cases "tl z") auto
  from assms(1) z have a: "isDecimalDigit a" and b: "isDecimalDigit b" by simp_all
  have trim: "trimStart z = z"
    using decimal_not_special(1) [OF a] by (simp add: trimStart_def z)
  have tw: "takeWhile (isRadixDigit 10) z = z"
    using assms(1) decimal_not_special(8) by (simp add: takeWhile_eq_all_conv list_all_iff)
  show ?thesis
    unfolding parseInt_def trim Let_def
    using decimal_not_special(2,3) [OF a] decimal_not_special(4,5) [OF b] tw
    by (simp add: z)
qed

lemma split_js_no_sep_single: "sep \<notin> set s \<Longrightarrow> split_js sep s = [s]"
  by (induction s) auto

lemma split_js_append: "sep \<notin> set a \<Longrightarrow> split_js sep (a @ sep # r) = a # split_js sep r"
  by (induction a) auto

lemma decimal_no_sep:
  assumes "list_all isDecimalDigit z"
  shows "CHR '':'' \<notin> set z" and "CHR ''.'' \<notin> set z"
  using assms decimal_not_special(6,7) by (auto simp: list_all_iff)

lemma parseTime_fields:
  assumes mm: "list_all isDecimalDigit mm" "2 \<le> length mm"
    and ss: "list_all isDecimalDigit ss" "length ss = 2"
    and ms: "list_all isDecimalDigit mmm" "length mmm = 3"
  shows "parseTime (mm @ CHR '':'' # ss @ CHR ''.'' # mmm) =
           add64 (add64 (mul64 (binary64 (real (mathInt 10 mm))) 60)
                        (binary64 (real (mathInt 10 ss))))
                 (div64 (binary64 (real (mathInt 10 mmm))) 1000)"
proof -
  have "CHR '':'' \<notin> set (ss @ CHR ''.'' # mmm)"
    using decimal_no_sep(1) [OF ss(1)] decimal_no_sep(1) [OF ms(1)] by simp
  then have parts: "split_js CHR '':'' (mm @ CHR '':'' # ss @ CHR ''.'' # mmm)
                      = [mm, ss @ CHR ''.'' # mmm]"
    using decimal_no_sep(1) [OF mm(1)] by (simp add: split_js_append split_js_no_sep_single)
  have sparts: "split_js CHR ''.'' (ss @ CHR ''.'' # mmm) = [ss, mmm]"
    using decimal_no_sep(2) [OF ss(1)] decimal_no_sep(2) [OF ms(1)]
    by (simp add: split_js_append split_js_no_sep_single)
  have pm: "parseInt mm = Some (binary64 (real (mathInt 10 mm)))"
    using mm by (rule parseInt_decimal)
  have ps: "parseInt ss = Some (binary64 (real (mathInt 10 ss)))"
    using ss by (intro parseInt_decimal) simp_all
  have pms: "parseInt mmm = Some (binary64 (real (mathInt 10 mmm)))"
    using ms by (intro parseInt_decimal) simp_all
  have sl: "slice_js (padEnd 3 CHR ''0'' mmm) 0 3 = mmm"
    using ms(2) by (simp add: slice_js_def padEnd_def)
  show ?thesis
    unfolding parseTime_def parts Let_def
    by (simp add: sparts pm ps pms sl orZero_def)
qed

subsection \<open>Parsing a time\<close>

lemma spec_timeShape_fields:
  assumes "spec_timeShape s"
  obtains mm ss mmm where "s = mm @ CHR '':'' # ss @ CHR ''.'' # mmm"
    and "list_all isDecimalDigit mm" and "2 \<le> length mm"
    and "list_all isDecimalDigit ss" and "length ss = 2"
    and "list_all isDecimalDigit mmm" and "length mmm = 3"
proof -
  from assms obtain mm rest where p: "split_js CHR '':'' s = [mm, rest]"
    by (auto simp: spec_timeShape_def split: list.splits)
  with assms obtain ss mmm where q: "split_js CHR ''.'' rest = [ss, mmm]"
    by (auto simp: spec_timeShape_def split: list.splits)
  from assms p q have props: "list_all isDecimalDigit mm" "2 \<le> length mm"
    "list_all isDecimalDigit ss" "length ss = 2" "list_all isDecimalDigit mmm" "length mmm = 3"
    by (simp_all add: spec_timeShape_def)
  have "s = join_js CHR '':'' [mm, rest]" using join_split_js [of "CHR '':''" s] p by simp
  moreover have "rest = join_js CHR ''.'' [ss, mmm]"
    using join_split_js [of "CHR ''.''" rest] q by simp
  ultimately have "s = mm @ CHR '':'' # ss @ CHR ''.'' # mmm" by simp
  then show thesis using props by (rule that)
qed

lemma parseTime_two_parts:
  assumes "split_js CHR '':'' s = [mf, rest]"
  shows "parseTime s =
           add64 (add64 (mul64 (orZero (parseInt mf)) 60)
                        (orZero (parseInt (hd (split_js CHR ''.'' rest)))))
                 (div64 (case tl (split_js CHR ''.'' rest) of
                           [] \<Rightarrow> 0
                         | fr # others \<Rightarrow>
                             orZero (parseInt (take 3 (fr @ replicate (3 - length fr)
                                                                 CHR ''0''))))
                        1000)"
proof -
  obtain p ps where ps: "split_js CHR ''.'' rest = p # ps"
    using split_js_not_Nil [of "CHR ''.''" rest] by (cases "split_js CHR ''.'' rest") auto
  have und: "parseInt ''undefined'' = None"
    by (simp add: parseInt_def trimStart_def isWhiteSpace_def isRadixDigit_def digitValue_def
          Let_def)
  show ?thesis
  proof (cases ps)
    case Nil
    with ps assms und show ?thesis
      by (simp add: parseTime_def Let_def orZero_def)
  next
    case (Cons fr others)
    with ps assms show ?thesis
      by (simp add: parseTime_def Let_def slice_js_def padEnd_def)
  qed
qed

lemma small_ints:
  "binary64 1 = 1" "binary64 2 = 2" "binary64 16 = 16" "binary64 30 = 30"
  "binary64 250 = 250" "binary64 500 = 500"
  by (simp_all add: eval64 Let_def)

lemma parse_fields_eval:
  "parseInt ''1'' = Some 1" "parseInt ''30'' = Some 30" "parseInt ''00'' = Some 0"
  "parseInt ''01'' = Some 1" "parseInt ''500'' = Some 500" "parseInt ''250'' = Some 250"
  "parseInt ''1x'' = Some 1" "parseInt ''2y'' = Some 2" "parseInt ''0x10'' = Some 16"
  "parseInt ''0'' = Some 0" "parseInt ''not-a-time'' = None"
  by (simp_all add: parseInt_def trimStart_def isWhiteSpace_def isRadixDigit_def
        digitValue_def mathInt_def Let_def small_ints)

lemma sums_eval:
  "mul64 1 60 = 60" "mul64 0 60 = 0" "mul64 16 60 = 960"
  "add64 60 30 = 90" "add64 0 1 = 1" "add64 60 2 = 62" "add64 960 0 = 960"
  "div64 0 1000 = 0" "div64 500 1000 = 1 / 2" "div64 250 1000 = 1 / 4"
  "add64 90 0 = 90" "add64 1 (1 / 2) = 3 / 2" "add64 62 0 = 62" "add64 90 (1 / 4) = 361 / 4"
  by (simp_all add: eval64 Let_def)

lemma replicate_small: "replicate 2 c = [c, c]" "replicate 3 c = [c, c, c]"
  by (simp_all add: numeral_2_eq_2 numeral_3_eq_3)

lemma parse_not_a_time: "parseTime ''not-a-time'' = 0"
  by (simp add: parseTime_def)

lemma parse_one_thirty: "parseTime ''1:30'' = 90"
  by (subst parseTime_two_parts [of _ "''1''" "''30''"]) (simp_all add: parse_fields_eval
        orZero_def sums_eval replicate_small)

lemma parse_short_fraction: "parseTime ''00:01.5'' = 3 / 2"
  by (subst parseTime_two_parts [of _ "''00''" "''01.5''"]) (simp_all add: parse_fields_eval
        orZero_def sums_eval replicate_small)

lemma parse_long_fraction: "parseTime ''00:01.5009'' = 3 / 2"
  by (subst parseTime_two_parts [of _ "''00''" "''01.5009''"]) (simp_all add: parse_fields_eval
        orZero_def sums_eval replicate_small)

lemma parse_trailing_letters: "parseTime ''1x:2y'' = 62"
  by (subst parseTime_two_parts [of _ "''1x''" "''2y''"]) (simp_all add: parse_fields_eval
        orZero_def sums_eval replicate_small)

lemma parse_hex_minutes: "parseTime ''0x10:0'' = 960"
  by (subst parseTime_two_parts [of _ "''0x10''" "''0''"]) (simp_all add: parse_fields_eval
        orZero_def sums_eval replicate_small)

text \<open>
  Claim C5, as stated, says every string that is not of the shape \<open>MM:SS.mmm\<close> parses to 0.
  The string \<open>1:30\<close> is not of that shape and parses to 90.
\<close>

theorem parseTime_accepts_short_form:
  "\<not> spec_timeShape ''1:30'' \<and> parseTime ''1:30'' = 90 \<and> parseTime ''1:30'' \<noteq> 0"
  by (simp add: parse_one_thirty spec_timeShape_def)

text \<open>
  Claim C5, amended: \<open>parseTime\<close> returns 0 for every string that does not split at the
  colon into exactly two parts, \<open>not-a-time\<close> among them. A string with exactly two parts is
  parsed field by field, each field read by \<open>parseInt\<close> and replaced by 0 when that gives
  no number: the minutes are the first part, the seconds are the second part up to its
  first full stop, and the milliseconds are the text between the first and the second full
  stop, padded at the end with the digit 0 to three characters and cut to three characters
  (0 when there is no full stop). The result is minutes times 60 plus seconds plus
  milliseconds over 1000, each operation rounded to binary64. For a string of the shape
  \<open>MM:SS.mmm\<close> the three fields are their decimal values. Strings of other shapes with two
  parts are accepted as well: \<open>1:30\<close> gives 90, \<open>00:01.5\<close> and \<open>00:01.5009\<close> give 1.5,
  \<open>1x:2y\<close> gives 62 and \<open>0x10:0\<close> gives 960.
\<close>

theorem parseTime_field_by_field:
  "(length (split_js CHR '':'' s) \<noteq> 2 \<longrightarrow> parseTime s = 0)
   \<and> (split_js CHR '':'' s = [mf, rest] \<longrightarrow>
        parseTime s =
          add64 (add64 (mul64 (orZero (parseInt mf)) 60)
                       (orZero (parseInt (hd (split_js CHR ''.'' rest)))))
                (div64 (case tl (split_js CHR ''.'' rest) of
                          [] \<Rightarrow> 0
                        | fr # others \<Rightarrow>
                            orZero (parseInt (take 3 (fr @ replicate (3 - length fr)
                                                                CHR ''0''))))
                       1000))
   \<and> (spec_timeShape s \<longrightarrow>
        (\<exists>mm ss mmm. s = mm @ CHR '':'' # ss @ CHR ''.'' # mmm
           \<and> parseTime s =
               add64 (add64 (mul64 (binary64 (real (mathInt 10 mm))) 60)
                            (binary64 (real (mathInt 10 ss))))
                     (div64 (binary64 (real (mathInt 10 mmm))) 1000)))
   \<and> parseTime ''not-a-time'' = 0
   \<and> parseTime ''1:30'' = 90
   \<and> parseTime ''00:01.5'' = 3 / 2
   \<and> parseTime ''00:01.5009'' = 3 / 2
   \<and> parseTime ''1x:2y'' = 62
   \<and> parseTime ''0x10:0'' = 960"
proof -
  have a: "length (split_js CHR '':'' s) \<noteq> 2 \<longrightarrow> parseTime s = 0"
    by (simp add: parseTime_def)
  have b: "spec_timeShape s \<longrightarrow>
        (\<exists>mm ss mmm. s = mm @ CHR '':'' # ss @ CHR ''.'' # mmm
           \<and> parseTime s =
               add64 (add64 (mul64 (binary64 (real (mathInt 10 mm))) 60)
                            (binary64 (real (mathInt 10 ss))))
                     (div64 (binary64 (real (mathInt 10 mmm))) 1000))"
  proof
    assume "spec_timeShape s"
    then obtain mm ss mmm where f: "s = mm @ CHR '':'' # ss @ CHR ''.'' # mmm"
      "list_all isDecimalDigit mm" "2 \<le> length mm"
      "list_all isDecimalDigit ss" "length ss = 2"
      "list_all isDecimalDigit mmm" "length mmm = 3"
      by (rule spec_timeShape_fields)
    have "parseTime s =
               add64 (add64 (mul64 (binary64 (real (mathInt 10 mm))) 60)
                            (binary64 (real (mathInt 10 ss))))
                     (div64 (binary64 (real (mathInt 10 mmm))) 1000)"
      unfolding f(1) using f(2-7) by (rule parseTime_fields)
    with f(1) show "\<exists>mm ss mmm. s = mm @ CHR '':'' # ss @ CHR ''.'' # mmm
           \<and> parseTime s =
               add64 (add64 (mul64 (binary64 (real (mathInt 10 mm))) 60)
                            (binary64 (real (mathInt 10 ss))))
                     (div64 (binary64 (real (mathInt 10 mmm))) 1000)"
      by blast
  qed
  from a b parseTime_two_parts [of s mf rest] parse_not_a_time parse_one_thirty
    parse_short_fraction parse_long_fraction parse_trailing_letters parse_hex_minutes
  show ?thesis by blast
qed

text \<open>
  Claim C5 at \<open>12:34:56\<close>, which has three parts, and at \<open>01:30.250\<close>, which has two parts
  and the shape \<open>MM:SS.mmm\<close>.
\<close>

theorem parseTime_field_by_field_witness:
  "length (split_js CHR '':'' ''12:34:56'') \<noteq> 2 \<and> parseTime ''12:34:56'' = 0
   \<and> split_js CHR '':'' ''01:30.250'' = [''01'', ''30.250'']
   \<and> spec_timeShape ''01:30.250'' \<and> parseTime ''01:30.250'' = 361 / 4"
proof -
  have h1: "length (split_js CHR '':'' ''12:34:56'') \<noteq> 2" by simp
  have h2: "split_js CHR '':'' ''01:30.250'' = [''01'', ''30.250'']" by simp
  have h3: "spec_timeShape ''01:30.250''" by (simp add: spec_timeShape_def isDecimalDigit_def)
  have z: "parseTime ''12:34:56'' = 0"
    using parseTime_field_by_field [of "''12:34:56''"] h1 by blast
  have "parseTime ''01:30.250'' =
          add64 (add64 (mul64 (orZero (parseInt ''01'')) 60)
                       (orZero (parseInt (hd (split_js CHR ''.'' ''30.250'')))))
                (div64 (case tl (split_js CHR ''.'' ''30.250'') of
                          [] \<Rightarrow> 0
                        | fr # others \<Rightarrow>
                            orZero (parseInt (take 3 (fr @ replicate (3 - length fr)
                                                                CHR ''0''))))
                       1000)"
    using parseTime_field_by_field [of "''01:30.250''" "''01''" "''30.250''"] h2 by blast
  then have w: "parseTime ''01:30.250'' = 361 / 4"
    by (simp add: parse_fields_eval orZero_def sums_eval)
  from h1 h2 h3 z w show ?thesis by simp
qed

subsection \<open>Rendering a time\<close>

lemma remainder_nonneg:
  assumes "0 \<le> x" and "0 < y"
  shows "remainder x y = x - y * of_int \<lfloor>x / y\<rfloor>"
proof -
  from assms have "0 \<le> x / y" by simp
  then have "trunc (x / y) = \<lfloor>x / y\<rfloor>" by (simp add: trunc_def)
  then show ?thesis by (simp add: remainder_def)
qed

lemma four_point_zero_zero_five:
  "binary64 (801 / 200) = 4509229126904709 / 1125899906842624"
  by (simp add: eval64 Let_def)

lemma format_sample:
  "formatTime (4509229126904709 / 1125899906842624) = ''00:04.004''"
proof -
  have a: "div64 (4509229126904709 / 1125899906842624) 60
             = 2404922201015845 / 36028797018963968"
    by (simp add: eval64 Let_def)
  have a': "\<lfloor>2404922201015845 / 36028797018963968 :: real\<rfloor> = 0" by simp
  have b: "remainder (4509229126904709 / 1125899906842624) 60
             = 4509229126904709 / 1125899906842624"
    by (simp add: remainder_def trunc_def)
  have b': "\<lfloor>4509229126904709 / 1125899906842624 :: real\<rfloor> = 4" by simp
  have c: "remainder (4509229126904709 / 1125899906842624) 1
             = 5629499534213 / 1125899906842624"
    by (simp add: remainder_def trunc_def)
  have d: "mul64 (5629499534213 / 1125899906842624) 1000
             = 703687441776625 / 140737488355328"
    by (simp add: eval64 Let_def)
  have d': "\<lfloor>703687441776625 / 140737488355328 :: real\<rfloor> = 4" by simp
  have f: "digits 0 = ''0''" "digits 4 = ''4''" by (simp_all add: digits.simps digitChar_def)
  show ?thesis
    unfolding formatTime_def Let_def a a' b b' c d d'
    by (simp add: f padStart_def toString_def replicate_small)
qed

lemma parse_sample:
  "parseTime ''00:04.004'' = 2254051613498933 / 562949953421312"
proof -
  have p: "parseInt ''00'' = Some 0" "parseInt ''04'' = Some 4" "parseInt ''004'' = Some 4"
    by (simp_all add: parseInt_def trimStart_def isWhiteSpace_def isRadixDigit_def
          digitValue_def mathInt_def Let_def eval64)
  have q: "mul64 0 60 = 0" "add64 0 4 = 4"
    "div64 4 1000 = 1152921504606847 / 288230376151711744"
    by (simp_all add: eval64 Let_def)
  have r: "add64 4 (1152921504606847 / 288230376151711744)
             = 2254051613498933 / 562949953421312"
    by (simp add: eval64 Let_def)
  show ?thesis
    by (subst parseTime_two_parts [of _ "''00''" "''04.004''"])
       (simp_all add: p orZero_def q r)
qed

text \<open>
  Claim C3, as stated, bounds the round trip by one millisecond. The time written
  \<^verbatim>\<open>4.005\<close> is the binary64 value just below 4.005; its fraction times 1000 rounds to a
  value below 5, so it is rendered as \<open>00:04.004\<close>, and that parses to the binary64 value
  nearest to 4.004, which is more than a millisecond below the time.
\<close>

theorem round_trip_loses_more_than_a_millisecond:
  "0 \<le> binary64 (801 / 200) \<and> binary64 (801 / 200) < 3600
   \<and> formatTime (binary64 (801 / 200)) = ''00:04.004''
   \<and> parseTime (formatTime (binary64 (801 / 200))) = 2254051613498933 / 562949953421312
   \<and> binary64 (801 / 200) - parseTime (formatTime (binary64 (801 / 200)))
        = 1125899906843 / 1125899906842624
   \<and> 1 / 1000 < \<bar>parseTime (formatTime (binary64 (801 / 200))) - binary64 (801 / 200)\<bar>"
  by (simp add: four_point_zero_zero_five format_sample parse_sample)

subsection \<open>The round trip of a time\<close>

lemma double_grid:
  assumes t: "0 < t" "isDouble t" and e: "expo t \<le> 52" and lt: "t < of_int n"
  shows "t + 2 powi (max (expo t) (- 1022) - 52) \<le> of_int n"
proof -
  define e where "e = max (expo t) (- 1022)"
  define u where "u = (2::real) powi (e - 52)"
  define r where "r = roundTiesToEven (t / u)"
  have u: "0 < u" by (simp add: u_def)
  have e52: "e \<le> 52" using e by (simp add: e_def)
  have tr: "t / u = of_int r"
    using double_multiple [OF t] by (simp add: r_def u_def e_def)
  then have t_eq: "t = of_int r * u" using u by (simp add: field_simps)
  have "(2::real) powi (52 - e) = 2 ^ nat (52 - e)"
    using e52 by (simp add: power_int_def)
  moreover have "(2::real) powi (52 - e) * u = 2 powi ((52 - e) + (e - 52))"
    unfolding u_def by (subst power_int_add) simp_all
  ultimately have inv: "(2::real) ^ nat (52 - e) * u = 1" by simp
  define q where "q = n * 2 ^ nat (52 - e)"
  have n_eq: "of_int n = of_int q * u"
  proof -
    have "of_int q * u = of_int n * ((2::real) ^ nat (52 - e) * u)" by (simp add: q_def)
    then show ?thesis by (simp only: inv mult_1_right)
  qed
  from lt have "of_int r * u < of_int q * u" by (simp only: t_eq n_eq)
  with u have "(of_int r :: real) < of_int q" by (simp only: mult_less_cancel_right_pos)
  then have "r + 1 \<le> q" by simp
  then have "(of_int (r + 1) :: real) \<le> of_int q" by (simp only: of_int_le_iff)
  with u have "of_int (r + 1) * u \<le> of_int q * u" by (intro mult_right_mono) simp_all
  then have "t + u \<le> of_int n" by (simp add: t_eq n_eq algebra_simps)
  then show ?thesis by (simp only: u_def e_def)
qed

lemma expo_below_hour:
  assumes "0 < t" and "t < 3600"
  shows "expo t \<le> 11"
proof -
  have "expo (3600 :: real) = 11" by (rule expo_unique) simp_all
  moreover have "expo t \<le> expo 3600" using assms by (intro expo_mono) simp_all
  ultimately show ?thesis by simp
qed

lemma expo_above_half:
  assumes "1 / 2 \<le> t"
  shows "- 1 \<le> expo t"
proof -
  have "expo (1 / 2 :: real) = - 1" by (rule expo_unique) (simp_all add: power_int_minus_divide)
  moreover have "expo (1 / 2) \<le> expo t" using assms by (intro expo_mono) simp_all
  ultimately show ?thesis by simp
qed

lemma ulp_above:
  assumes "0 < t"
  shows "t / 2 ^ 53 < 2 powi (max (expo t) (- 1022) - 52)"
proof -
  define e where "e = max (expo t) (- 1022)"
  have "t < 2 powi (expo t + 1)" using expo_bounds [OF assms] by simp
  also have "\<dots> \<le> 2 powi (e + 1)" by (intro power_int_increasing) (simp_all add: e_def)
  finally have "t < 2 powi (e + 1)" .
  moreover have "(2::real) powi (e + 1) = 2 powi (e - 52) * 2 ^ 53"
  proof -
    have "(2::real) powi (e - 52) * 2 powi 53 = 2 powi ((e - 52) + 53)"
      by (subst power_int_add) simp_all
    then show ?thesis by (simp add: add.commute)
  qed
  ultimately have "t < 2 powi (e - 52) * 2 ^ 53" by simp
  then have "t / 2 ^ 53 < 2 powi (e - 52)" by (simp add: field_simps)
  then show ?thesis by (simp only: e_def)
qed

lemma tiny_le_eps: "(2::real) powi (- 1022) \<le> 1 / 2 ^ 53"
proof -
  have "(2::real) powi (- 1022) \<le> 2 powi (- 53)"
    by (intro power_int_increasing) simp_all
  then show ?thesis by (simp add: power_int_minus_divide)
qed

lemma isDouble_tiny: "isDouble (2 powi (- 1022))"
  using isDouble_scaled [of 1 "- 1022"] by simp

lemma binary64_error_abs:
  assumes "0 \<le> x" and "x \<le> B" and "1 \<le> B"
  shows "\<bar>binary64 x - x\<bar> \<le> B / 2 ^ 53"
proof -
  consider "x = 0" | "0 < x" "x < 2 powi (- 1022)" | "2 powi (- 1022) \<le> x"
    using assms(1) by fastforce
  then show ?thesis
  proof cases
    case 1
    then show ?thesis using assms(3) by simp
  next
    case 2
    have "binary64 x \<le> 2 powi (- 1022)"
      using 2 isDouble_tiny by (intro binary64_le_double) simp_all
    moreover have "0 \<le> binary64 x" using assms(1) by (rule binary64_nonneg)
    ultimately have "\<bar>binary64 x - x\<bar> \<le> 2 powi (- 1022)" using 2 by linarith
    also have "\<dots> \<le> 1 / 2 ^ 53" by (rule tiny_le_eps)
    also have "\<dots> \<le> B / 2 ^ 53" using assms(3) by (simp add: divide_right_mono)
    finally show ?thesis .
  next
    case 3
    have "\<bar>binary64 x - x\<bar> \<le> x / 2 ^ 53" by (rule binary64_error [OF 3])
    also have "\<dots> \<le> B / 2 ^ 53" using assms(2) by (simp add: divide_right_mono)
    finally show ?thesis .
  qed
qed

lemma binary64_of_nat:
  assumes "n < 2 ^ 53"
  shows "binary64 (real n) = real n"
  using isDouble_of_nat [OF assms] by (simp add: isDouble_def)

lemma floor_div64_sixty:
  assumes d: "isDouble t" and t0: "0 \<le> t" and t1: "t < 3600"
  shows "\<lfloor>div64 t 60\<rfloor> = \<lfloor>t / 60\<rfloor>"
proof -
  define m where "m = \<lfloor>t / 60\<rfloor>"
  have m0: "0 \<le> m" using t0 by (simp add: m_def)
  have mle: "of_int m \<le> t / 60" unfolding m_def by (rule of_int_floor_le)
  have mlt: "t / 60 < of_int m + 1" unfolding m_def by linarith
  have m60: "m < 60"
  proof -
    have "t / 60 < of_int 60" using t1 by simp
    then show ?thesis unfolding m_def by (simp only: floor_less_iff)
  qed
  have lo: "of_int m \<le> binary64 (t / 60)"
  proof (cases "m = 0")
    case True
    then show ?thesis using t0 by (simp add: binary64_nonneg)
  next
    case False
    with m0 have mp: "0 < m" by simp
    have "nat m < 2 ^ 53" using m60 by simp
    then have "isDouble (real (nat m))" by (rule isDouble_of_nat)
    then have dm: "isDouble (of_int m)" using m0 by simp
    from mp have "(0::real) < of_int m" by simp
    then show ?thesis using mle dm by (rule binary64_ge_double)
  qed
  have hi: "binary64 (t / 60) < of_int m + 1"
  proof (cases "t < 30")
    case True
    show ?thesis
    proof (cases "t = 0")
      case True
      then show ?thesis using m0 by simp
    next
      case False
      with t0 have "0 < t / 60" by simp
      moreover have "t / 60 \<le> 1 / 2" using True by simp
      moreover have "isDouble (1 / 2)" using isDouble_scaled [of 1 "- 1"]
        by (simp add: power_int_minus_divide)
      ultimately have "binary64 (t / 60) \<le> 1 / 2" by (rule binary64_le_double)
      moreover have "(0::real) \<le> of_int m" using m0 by simp
      ultimately show ?thesis by linarith
    qed
  next
    case False
    then have tp: "0 < t" by simp
    define u where "u = (2::real) powi (max (expo t) (- 1022) - 52)"
    have "t < of_int (60 * (m + 1))" using mlt by simp
    moreover have "expo t \<le> 52" using expo_below_hour [OF tp t1] by simp
    ultimately have "t + u \<le> of_int (60 * (m + 1))"
      unfolding u_def using tp d by (intro double_grid) simp_all
    then have g: "(t + u) / 60 \<le> of_int m + 1" by simp
    have ul: "t / 2 ^ 53 < u" unfolding u_def by (rule ulp_above [OF tp])
    have "1 / 2 ^ 40 \<le> t / 60" using False by simp
    then have "binary64 (t / 60) \<le> t / 60 + t / 60 / 2 ^ 53" by (rule binary64_pos_normal(2))
    also have "\<dots> = (t + t / 2 ^ 53) / 60" by (simp add: field_simps)
    also have "\<dots> < (t + u) / 60" using ul by (simp add: divide_strict_right_mono)
    also note g
    finally show ?thesis .
  qed
  have "\<lfloor>binary64 (t / 60)\<rfloor> = m" using lo hi by (simp add: floor_eq_iff)
  then show ?thesis by (simp add: div64_def m_def)
qed

lemma fraction_below_one:
  assumes d: "isDouble t" and h: "1 / 2 \<le> t" and t1: "t < 3600"
  shows "t - of_int \<lfloor>t\<rfloor> \<le> 1 - 1 / 2 ^ 53"
proof -
  have tp: "0 < t" using h by simp
  define e where "e = max (expo t) (- 1022)"
  have "t < of_int (\<lfloor>t\<rfloor> + 1)" by simp
  moreover have "expo t \<le> 52" using expo_below_hour [OF tp t1] by simp
  ultimately have g: "t + 2 powi (e - 52) \<le> of_int (\<lfloor>t\<rfloor> + 1)"
    unfolding e_def using tp d by (intro double_grid)
  have "- 1 \<le> e" using expo_above_half [OF h] by (simp add: e_def)
  then have "(2::real) powi (- 53) \<le> 2 powi (e - 52)"
    by (intro power_int_increasing) simp_all
  then have "1 / 2 ^ 53 \<le> (2::real) powi (e - 52)" by (simp add: power_int_minus_divide)
  with g show ?thesis by simp
qed

lemma millis_bounds:
  assumes d: "isDouble t" and t0: "0 \<le> t" and t1: "t < 3600"
  shows "0 \<le> mul64 (t - of_int \<lfloor>t\<rfloor>) 1000"
    and "mul64 (t - of_int \<lfloor>t\<rfloor>) 1000 < 1000"
    and "\<bar>mul64 (t - of_int \<lfloor>t\<rfloor>) 1000 - (t - of_int \<lfloor>t\<rfloor>) * 1000\<bar> \<le> 1000 / 2 ^ 53"
proof -
  define f where "f = t - of_int \<lfloor>t\<rfloor>"
  define y where "y = f * 1000"
  have f0: "0 \<le> f" and f1: "f < 1" unfolding f_def by linarith+
  have y0: "0 \<le> y" and y1: "y \<le> 1000" using f0 f1 by (simp_all add: y_def)
  have m: "mul64 f 1000 = binary64 y" by (simp add: mul64_def y_def)
  show "0 \<le> mul64 (t - of_int \<lfloor>t\<rfloor>) 1000"
    unfolding f_def [symmetric] m using y0 by (rule binary64_nonneg)
  have "\<bar>binary64 y - y\<bar> \<le> 1000 / 2 ^ 53" using y0 y1 by (rule binary64_error_abs) simp
  then show "\<bar>mul64 (t - of_int \<lfloor>t\<rfloor>) 1000 - (t - of_int \<lfloor>t\<rfloor>) * 1000\<bar> \<le> 1000 / 2 ^ 53"
    unfolding f_def [symmetric] m y_def .
  have "binary64 y < 1000"
  proof (cases "y \<le> 500")
    case True
    show ?thesis
    proof (cases "y = 0")
      case True
      then show ?thesis by simp
    next
      case False
      with y0 have "0 < y" by simp
      moreover note True
      moreover have "isDouble 500" using isDouble_of_nat [of 500] by simp
      ultimately have "binary64 y \<le> 500" by (rule binary64_le_double)
      then show ?thesis by simp
    qed
  next
    case False
    then have fh: "1 / 2 < f" by (simp add: y_def)
    have "1 / 2 \<le> t"
    proof (rule ccontr)
      assume "\<not> 1 / 2 \<le> t"
      with t0 have "\<lfloor>t\<rfloor> = 0" by (simp add: floor_eq_iff)
      with \<open>\<not> 1 / 2 \<le> t\<close> fh show False by (simp add: f_def)
    qed
    then have "f \<le> 1 - 1 / 2 ^ 53" unfolding f_def using d t1 by (intro fraction_below_one)
    then have yb: "y \<le> 1000 - 1000 / 2 ^ 53" by (simp add: y_def)
    have "1 / 2 ^ 40 \<le> y" using False by simp
    then have "binary64 y \<le> y + y / 2 ^ 53" by (rule binary64_pos_normal(2))
    also have "\<dots> = y * (1 + 1 / 2 ^ 53)" by (simp add: algebra_simps)
    also have "\<dots> \<le> (1000 - 1000 / 2 ^ 53) * (1 + 1 / 2 ^ 53)"
      using yb by (intro mult_right_mono) simp_all
    also have "\<dots> < 1000" by simp
    finally show ?thesis .
  qed
  then show "mul64 (t - of_int \<lfloor>t\<rfloor>) 1000 < 1000" unfolding f_def [symmetric] m .
qed

lemma formatTime_fields:
  assumes d: "isDouble t" and t0: "0 \<le> t" and t1: "t < 3600"
    and M_def: "M = \<lfloor>t / 60\<rfloor>"
    and S_def: "S = \<lfloor>t\<rfloor> - 60 * M"
    and L_def: "L = \<lfloor>mul64 (t - of_int \<lfloor>t\<rfloor>) 1000\<rfloor>"
  shows "formatTime t = padStart 2 CHR ''0'' (digits (nat M)) @ CHR '':'' #
                        padStart 2 CHR ''0'' (digits (nat S)) @ CHR ''.'' #
                        padStart 3 CHR ''0'' (digits (nat L))"
    and "0 \<le> M" and "M < 60" and "0 \<le> S" and "S < 60" and "0 \<le> L" and "L < 1000"
proof -
  show M0: "0 \<le> M" using t0 by (simp add: M_def)
  have "t / 60 < of_int 60" using t1 by simp
  then show "M < 60" unfolding M_def by (simp only: floor_less_iff)
  have mins: "\<lfloor>div64 t 60\<rfloor> = M" unfolding M_def using d t0 t1 by (rule floor_div64_sixty)
  have r60: "remainder t 60 = t - of_int (60 * M)"
    using t0 by (simp add: remainder_nonneg M_def)
  have secs: "\<lfloor>remainder t 60\<rfloor> = S"
    unfolding r60 S_def by (rule floor_diff_of_int)
  have "of_int M \<le> t / 60" unfolding M_def by (rule of_int_floor_le)
  then have le: "of_int (60 * M) \<le> t" by simp
  have "t / 60 < of_int M + 1" unfolding M_def by linarith
  then have lt: "t < of_int (60 * M + 60)" by simp
  from le have "60 * M \<le> \<lfloor>t\<rfloor>" by (simp only: le_floor_iff)
  then show S0: "0 \<le> S" by (simp add: S_def)
  from lt have "\<lfloor>t\<rfloor> < 60 * M + 60" by (simp only: floor_less_iff)
  then show S60: "S < 60" by (simp add: S_def)
  have r1: "remainder t 1 = t - of_int \<lfloor>t\<rfloor>"
    using t0 by (simp add: remainder_nonneg)
  have ms: "\<lfloor>mul64 (remainder t 1) 1000\<rfloor> = L" by (simp only: r1 L_def)
  note b = millis_bounds [OF d t0 t1]
  from b(1) show L0: "0 \<le> L" unfolding L_def by (simp only: zero_le_floor)
  from b(2) have "mul64 (t - of_int \<lfloor>t\<rfloor>) 1000 < of_int 1000" by simp
  then show L1000: "L < 1000" unfolding L_def by (simp only: floor_less_iff)
  have "formatTime t = padStart 2 CHR ''0'' (toString M) @ '':'' @
                       padStart 2 CHR ''0'' (toString S) @ ''.'' @
                       padStart 3 CHR ''0'' (toString L)"
    unfolding formatTime_def Let_def secs ms mins by (rule refl)
  then show "formatTime t = padStart 2 CHR ''0'' (digits (nat M)) @ CHR '':'' #
                        padStart 2 CHR ''0'' (digits (nat S)) @ CHR ''.'' #
                        padStart 3 CHR ''0'' (digits (nat L))"
    using M0 S0 L0 by (simp add: toString_def)
qed

lemma parseTime_formatTime:
  assumes d: "isDouble t" and t0: "0 \<le> t" and t1: "t < 3600"
  shows "parseTime (formatTime t)
           = add64 (of_int \<lfloor>t\<rfloor>)
                   (div64 (of_int \<lfloor>mul64 (t - of_int \<lfloor>t\<rfloor>) 1000\<rfloor>) 1000)"
proof -
  define M where "M = \<lfloor>t / 60\<rfloor>"
  define S where "S = \<lfloor>t\<rfloor> - 60 * M"
  define L where "L = \<lfloor>mul64 (t - of_int \<lfloor>t\<rfloor>) 1000\<rfloor>"
  note f = formatTime_fields [OF d t0 t1 M_def S_def L_def]
  have "nat S < 10 ^ 2" using f(4,5) by simp
  then have lenS: "length (padStart 2 CHR ''0'' (digits (nat S))) = 2"
    by (intro padStart_digits(4)) simp_all
  have "nat L < 10 ^ 3" using f(6,7) by simp
  then have lenL: "length (padStart 3 CHR ''0'' (digits (nat L))) = 3"
    by (intro padStart_digits(4)) simp_all
  have p: "parseTime (formatTime t)
             = add64 (add64 (mul64 (binary64 (real (nat M))) 60) (binary64 (real (nat S))))
                     (div64 (binary64 (real (nat L))) 1000)"
    unfolding f(1)
    by (subst parseTime_fields) (simp_all only: padStart_digits lenS lenL)
  have bM: "binary64 (real (nat M)) = real (nat M)"
    using f(3) by (intro binary64_of_nat) simp
  have bS: "binary64 (real (nat S)) = real (nat S)"
    using f(5) by (intro binary64_of_nat) simp
  have bL: "binary64 (real (nat L)) = real (nat L)"
    using f(7) by (intro binary64_of_nat) simp
  have "mul64 (real (nat M)) 60 = binary64 (real (nat M * 60))" by (simp add: mul64_def)
  also have "\<dots> = real (nat M * 60)" using f(3) by (intro binary64_of_nat) simp
  finally have m60: "mul64 (real (nat M)) 60 = real (nat M * 60)" .
  have "add64 (real (nat M * 60)) (real (nat S)) = binary64 (real (nat M * 60 + nat S))"
    by (simp add: add64_def)
  also have "\<dots> = real (nat M * 60 + nat S)" using f(3,5) by (intro binary64_of_nat) simp
  also have "\<dots> = of_int \<lfloor>t\<rfloor>" using f(2,4) by (simp add: S_def)
  finally have a: "add64 (real (nat M * 60)) (real (nat S)) = of_int \<lfloor>t\<rfloor>" .
  have l: "real (nat L) = of_int L" using f(6) by simp
  have bL': "binary64 (of_int L) = of_int L" using bL by (simp only: l)
  have "parseTime (formatTime t) = add64 (of_int \<lfloor>t\<rfloor>) (div64 (of_int L) 1000)"
    unfolding p bM bS m60 a l bL' by (rule refl)
  then show ?thesis by (simp only: L_def)
qed

lemma round_trip_error:
  assumes d: "isDouble t" and t0: "0 \<le> t" and t1: "t < 3600"
  shows "parseTime (formatTime t) - t \<le> 3604 / 2 ^ 53"
    and "t - parseTime (formatTime t) < 1 / 1000 + 3604 / 2 ^ 53"
proof -
  define a :: real where "a = of_int \<lfloor>t\<rfloor>"
  define f where "f = t - a"
  define y where "y = mul64 f 1000"
  define L where "L = \<lfloor>y\<rfloor>"
  define b where "b = div64 (of_int L) 1000"
  have p: "parseTime (formatTime t) = binary64 (a + b)"
    using parseTime_formatTime [OF d t0 t1]
    by (simp add: a_def f_def y_def L_def b_def add64_def)
  note mb = millis_bounds [OF d t0 t1, folded a_def, folded f_def, folded y_def]
  have a0: "0 \<le> a" using t0 by (simp add: a_def)
  have a1: "a \<le> t" unfolding a_def by (rule of_int_floor_le)
  have L0: "0 \<le> L" using mb(1) by (simp add: L_def)
  have Lle: "of_int L \<le> y" unfolding L_def by (rule of_int_floor_le)
  have Llt: "y < of_int L + 1" unfolding L_def by linarith
  have q0: "(0::real) \<le> of_int L / 1000" using L0 by simp
  have q1: "(of_int L :: real) / 1000 \<le> 1" using Lle mb(2) by simp
  have "\<bar>binary64 (of_int L / 1000) - of_int L / 1000\<bar> \<le> 1 / 2 ^ 53"
    using q0 q1 by (rule binary64_error_abs) simp
  then have eb: "\<bar>b - of_int L / 1000\<bar> \<le> 1 / 2 ^ 53" by (simp add: b_def div64_def)
  have b0: "0 \<le> b" unfolding b_def div64_def using q0 by (rule binary64_nonneg)
  have eps: "(1::real) / 2 ^ 53 \<le> 1" by simp
  have b2: "b \<le> 2" using eb q1 eps by linarith
  have w0: "0 \<le> a + b" using a0 b0 by simp
  have w1: "a + b \<le> 3602" using a1 t1 b2 by simp
  have ew: "\<bar>binary64 (a + b) - (a + b)\<bar> \<le> 3602 / 2 ^ 53"
    using w0 w1 by (rule binary64_error_abs) simp
  have ey: "\<bar>y - f * 1000\<bar> \<le> 1000 / 2 ^ 53" by (rule mb(3))
  have t: "t = a + f" by (simp add: f_def)
  have up: "of_int L / 1000 - f \<le> 1 / 2 ^ 53"
  proof -
    have "of_int L - f * 1000 \<le> 1000 / 2 ^ 53" using Lle ey by linarith
    then show ?thesis by (simp add: field_simps)
  qed
  have dn: "f - of_int L / 1000 < 1 / 1000 + 1 / 2 ^ 53"
  proof -
    have "f * 1000 - of_int L < 1 + 1000 / 2 ^ 53" using Llt ey by linarith
    then show ?thesis by (simp add: field_simps)
  qed
  define e :: real where "e = 1 / 2 ^ 53"
  have ew': "\<bar>binary64 (a + b) - (a + b)\<bar> \<le> 3602 * e" using ew by (simp add: e_def)
  have eb': "\<bar>b - of_int L / 1000\<bar> \<le> e" using eb by (simp add: e_def)
  have up': "of_int L / 1000 - f \<le> e" using up by (simp add: e_def)
  have dn': "f - of_int L / 1000 < 1 / 1000 + e" using dn by (simp add: e_def)
  have "binary64 (a + b) - t \<le> 3604 * e" using ew' eb' up' t by linarith
  then show "parseTime (formatTime t) - t \<le> 3604 / 2 ^ 53" by (simp add: p e_def)
  have "t - binary64 (a + b) < 1 / 1000 + 3604 * e" using ew' eb' dn' t by linarith
  then show "t - parseTime (formatTime t) < 1 / 1000 + 3604 / 2 ^ 53" by (simp add: p e_def)
qed

lemma isDouble_nine_halves: "isDouble (9 / 2)"
  using isDouble_scaled [of 9 "- 1"] by (simp add: power_int_minus_divide)

lemma format_nine_halves: "formatTime (9 / 2) = ''00:04.500''"
proof -
  have a: "div64 (9 / 2) 60 = 5404319552844595 / 72057594037927936"
    by (simp add: eval64 Let_def)
  have a': "\<lfloor>5404319552844595 / 72057594037927936 :: real\<rfloor> = 0" by simp
  have b: "remainder (9 / 2) 60 = 9 / 2" by (simp add: remainder_def trunc_def)
  have b': "\<lfloor>9 / 2 :: real\<rfloor> = 4" by simp
  have c: "remainder (9 / 2) 1 = 1 / 2" by (simp add: remainder_def trunc_def)
  have d: "mul64 (1 / 2) 1000 = 500" by (simp add: eval64 Let_def)
  have d': "\<lfloor>500 :: real\<rfloor> = 500" by simp
  have f: "digits 0 = ''0''" "digits 4 = ''4''" "digits 500 = ''500''"
    by (simp_all add: digits.simps digitChar_def)
  show ?thesis
    unfolding formatTime_def Let_def a a' b b' c d d'
    by (simp add: f padStart_def toString_def replicate_small)
qed

lemma parse_nine_halves: "parseTime ''00:04.500'' = 9 / 2"
proof -
  have p: "parseInt ''00'' = Some 0" "parseInt ''04'' = Some 4" "parseInt ''500'' = Some 500"
    by (simp_all add: parseInt_def trimStart_def isWhiteSpace_def isRadixDigit_def
          digitValue_def mathInt_def Let_def eval64)
  have q: "mul64 0 60 = 0" "add64 0 4 = 4" "div64 500 1000 = 1 / 2" "add64 4 (1 / 2) = 9 / 2"
    by (simp_all add: eval64 Let_def)
  show ?thesis
    by (subst parseTime_two_parts [of _ "''00''" "''04.500''"])
       (simp_all add: p orZero_def q)
qed

text \<open>
  Claim C3, amended: for every binary64 time \<open>t\<close> with \<open>0 \<le> t < 3600\<close>, parsing the rendering
  of \<open>t\<close> gives the whole seconds of \<open>t\<close> plus the rendered milliseconds over 1000, both
  operations rounded to binary64. The result is within \<open>0.001 + 2\<^sup>-\<^sup>4\<^sup>1\<close> seconds of \<open>t\<close>: it
  exceeds \<open>t\<close> by at most \<open>2\<^sup>-\<^sup>4\<^sup>1\<close> and falls short of it by less than \<open>0.001 + 2\<^sup>-\<^sup>4\<^sup>1\<close>.
\<close>

theorem time_round_trip_rounded:
  assumes "isDouble t" and "0 \<le> t" and "t < 3600"
  shows "parseTime (formatTime t)
           = add64 (of_int \<lfloor>t\<rfloor>)
                   (div64 (of_int \<lfloor>mul64 (t - of_int \<lfloor>t\<rfloor>) 1000\<rfloor>) 1000)
         \<and> \<bar>parseTime (formatTime t) - t\<bar> < 1 / 1000 + 1 / 2 ^ 41
         \<and> parseTime (formatTime t) - t \<le> 1 / 2 ^ 41
         \<and> t - parseTime (formatTime t) < 1 / 1000 + 1 / 2 ^ 41"
proof -
  note e = round_trip_error [OF assms]
  have c: "(3604 :: real) / 2 ^ 53 \<le> 1 / 2 ^ 41" by simp
  from e c have up: "parseTime (formatTime t) - t \<le> 1 / 2 ^ 41" by linarith
  from e c have dn: "t - parseTime (formatTime t) < 1 / 1000 + 1 / 2 ^ 41" by linarith
  have "(0 :: real) < 1 / 1000" by simp
  with up dn have ab: "\<bar>parseTime (formatTime t) - t\<bar> < 1 / 1000 + 1 / 2 ^ 41"
    by linarith
  from parseTime_formatTime [OF assms] ab up dn show ?thesis by blast
qed

text \<open>Claim C3 at 4.5 seconds, rendered as \<open>00:04.500\<close>.\<close>

theorem time_round_trip_rounded_witness:
  "isDouble (9 / 2) \<and> (0 :: real) \<le> 9 / 2 \<and> (9 / 2 :: real) < 3600
   \<and> formatTime (9 / 2) = ''00:04.500''
   \<and> parseTime ''00:04.500'' = 9 / 2
   \<and> \<bar>parseTime (formatTime (9 / 2)) - 9 / 2\<bar> < 1 / 1000 + 1 / 2 ^ 41"
proof -
  have h1: "(0 :: real) \<le> 9 / 2" and h2: "(9 / 2 :: real) < 3600" by simp_all
  from time_round_trip_rounded [OF isDouble_nine_halves h1 h2]
  have "\<bar>parseTime (formatTime (9 / 2)) - 9 / 2\<bar> < 1 / 1000 + 1 / 2 ^ 41" by blast
  with isDouble_nine_halves h1 h2 format_nine_halves parse_nine_halves show ?thesis by blast
qed

end
